theory Spec2Isabelle
  imports Complex_Main "HOL-Library.Word" "HOL-Library.Log_Nat" "HOL-Library.Monad_Syntax"
begin

unbundle bit_operations_syntax

section \<open>log2life: access-log lines to Life 1.05 patterns\<close>

text \<open>
  The development follows \<^verbatim>\<open>main.go\<close> in its later revision (the one that parses the
  timestamps, lines 181 to 382 of the source file). A Go \<^verbatim>\<open>string\<close> is a sequence of
  bytes and is modelled as a \<^typ>\<open>string\<close>; a Go \<^verbatim>\<open>byte\<close> is an \<^typ>\<open>8 word\<close>; a Go
  \<^verbatim>\<open>int\<close> is an \<^typ>\<open>int\<close>, with the 64-bit range written out where it matters.
\<close>

type_synonym byte = "8 word"

definition byte_of :: "char \<Rightarrow> byte" where
  "byte_of c = of_nat (of_char c)"

definition bytes :: "string \<Rightarrow> byte list" where
  "bytes s = map byte_of s"

subsection \<open>The XOR fold of \<^verbatim>\<open>LineToPattern\<close> (lines 311 to 322)\<close>

text \<open>
  \<^verbatim>\<open>
  var data [8]byte
  var idx int
  for _, b := range []byte(fields[1]) {
      if b == byte('"') { continue }
      data[idx] = data[idx] ^ b
      idx = (idx + 1) % 8
  }
  \<close>
  The array is a list of length 8, the loop a recursion over the bytes with the array and
  the index as accumulators. The index stays below 8, so the update is always in range.
\<close>

definition quote :: byte where
  "quote = 0x22"

fun xor_loop :: "byte list \<Rightarrow> nat \<Rightarrow> byte list \<Rightarrow> byte list" where
  "xor_loop data idx [] = data"
| "xor_loop data idx (b # bs) =
     (if b = quote then xor_loop data idx bs
      else xor_loop (data[idx := data ! idx XOR b]) ((idx + 1) mod 8) bs)"

definition xorData :: "byte list \<Rightarrow> byte list" where
  "xorData payload = xor_loop (replicate 8 0) 0 payload"

text \<open>
  The fingerprint as the specification words it: byte \<open>j\<close> is the XOR of the non-quote
  bytes whose position \<open>i\<close>, counted without the quotes, has \<open>i mod 8 = j\<close>.
\<close>

definition unquoted :: "byte list \<Rightarrow> byte list" where
  "unquoted p = filter (\<lambda>b. b \<noteq> quote) p"

definition xor_all :: "byte list \<Rightarrow> byte" where
  "xor_all bs = foldr (XOR) bs 0"

definition fingerprint_spec :: "byte list \<Rightarrow> nat \<Rightarrow> byte" where
  "fingerprint_spec p j =
     xor_all (map (\<lambda>i. unquoted p ! i) (filter (\<lambda>i. i mod 8 = j) [0..<length (unquoted p)]))"

subsection \<open>\<^verbatim>\<open>MakeLife105\<close> (lines 359 to 382)\<close>

text \<open>\<^verbatim>\<open>fmt.Sprintf("%d", n)\<close>: the decimal digits of \<open>n\<close>, after a minus sign when negative.\<close>

definition digit_char :: "nat \<Rightarrow> char" where
  "digit_char d = char_of (48 + d)"

fun decimal :: "nat \<Rightarrow> string" where
  "decimal n = (if n < 10 then [digit_char n] else decimal (n div 10) @ [digit_char (n mod 10)])"

declare decimal.simps [simp del]

definition itoa :: "int \<Rightarrow> string" where
  "itoa n = (if n < 0 then CHR ''-'' # decimal (nat (- n)) else decimal (nat n))"

text \<open>
  The inner loop of \<^verbatim>\<open>MakeLife105\<close>: eight times, test the top bit of \<open>b\<close>, append
  a star or a dot, and shift \<open>b\<close> left by one within the byte.
\<close>

function bits_loop :: "nat \<Rightarrow> byte \<Rightarrow> string \<Rightarrow> string" where
  "bits_loop i b line =
     (if i < 8
      then bits_loop (i + 1) (push_bit 1 b)
             (line @ [if b AND 0x80 = 0x80 then CHR ''*'' else CHR ''.''])
      else line)"
  by pat_completeness auto
termination
  by (relation "measure (\<lambda>(i, b, line). 8 - i)") auto

declare bits_loop.simps [simp del]

definition header :: "int \<Rightarrow> int \<Rightarrow> string list" where
  "header x y =
     [''#Life 1.05'', ''#D log2life ouput'', ''#N'', ''#P '' @ itoa x @ '' '' @ itoa y]"

definition MakeLife105 :: "int \<Rightarrow> int \<Rightarrow> byte list \<Rightarrow> string list" where
  "MakeLife105 x y data = header x y @ map (\<lambda>b. bits_loop 0 b []) data"

text \<open>A cell of the grid as a character: alive is a star, dead is a dot.\<close>

definition cell :: "bool \<Rightarrow> char" where
  "cell alive = (if alive then CHR ''*'' else CHR ''.'')"

subsection \<open>Panics and 64-bit integers\<close>

text \<open>
  An index or a slice bound out of range makes the Go runtime panic; nothing in the program
  recovers from a panic, so it ends the run. A function that can panic returns
  \<open>panic + 'a\<close>, with \<open>Inl\<close> the panic.
\<close>

datatype panic = IndexOutOfRange nat nat | SliceBoundsOutOfRange nat nat

definition index :: "'a list \<Rightarrow> nat \<Rightarrow> panic + 'a" where
  "index xs i = (if i < length xs then Inr (xs ! i) else Inl (IndexOutOfRange i (length xs)))"

definition and_then :: "'p + 'v \<Rightarrow> ('v \<Rightarrow> 'p + 'w) \<Rightarrow> 'p + 'w" where
  "and_then r k = (case r of Inl p \<Rightarrow> Inl p | Inr v \<Rightarrow> k v)"

text \<open>The value of an \<^verbatim>\<open>int64\<close> after an operation whose exact result is \<open>n\<close>.\<close>

definition wrap64 :: "int \<Rightarrow> int" where
  "wrap64 n = (n + 2 ^ 63) mod 2 ^ 64 - 2 ^ 63"

text \<open>Go's integer division truncates towards zero.\<close>

definition go_quot :: "int \<Rightarrow> int \<Rightarrow> int" where
  "go_quot a b = (if (a < 0) = (b < 0) then \<bar>a\<bar> div \<bar>b\<bar> else - (\<bar>a\<bar> div \<bar>b\<bar>))"

subsection \<open>\<^verbatim>\<open>float64\<close>\<close>

text \<open>
  A \<^verbatim>\<open>float64\<close> is an IEEE 754 binary64 value: a sign and a magnitude (a rational, in
  a value the program computes one with a 53-bit significand), an infinity with its sign,
  or a NaN. Zero has a sign. Arithmetic rounds the exact result to the nearest
  representable magnitude, ties to the even significand: the unit in the last place of a
  magnitude \<open>m\<close> with \<open>2^e \<le> m < 2^(e+1)\<close> is \<open>2^(e-52)\<close>, with the exponent no smaller
  than -1022 (below, the values are subnormal); a rounded magnitude of \<open>2^1024\<close> or more
  is an overflow to infinity.
\<close>

datatype float64 = Float bool rat | Inf bool | NaN

definition floor_log2 :: "rat \<Rightarrow> int" where
  "floor_log2 m = (if 1 \<le> m then bitlen \<lfloor>m\<rfloor> - 1 else - bitlen (\<lceil>1 / m\<rceil> - 1))"

definition round_even :: "rat \<Rightarrow> int" where
  "round_even x =
     (let f = \<lfloor>x\<rfloor>; d = x - of_int f
      in if d < 1 / 2 then f else if 1 / 2 < d then f + 1 else if even f then f else f + 1)"

definition expo :: "rat \<Rightarrow> int" where
  "expo m = max (floor_log2 m) (- 1022)"

definition ulp :: "rat \<Rightarrow> rat" where
  "ulp m = 2 powi (expo m - 52)"

definition round_mag :: "rat \<Rightarrow> rat" where
  "round_mag m = (if m = 0 then 0 else of_int (round_even (m / ulp m)) * ulp m)"

definition f64_round :: "bool \<Rightarrow> rat \<Rightarrow> float64" where
  "f64_round s m = (let r = round_mag m in if 2 ^ 1024 \<le> r then Inf s else Float s r)"

text \<open>\<^verbatim>\<open>float64(n)\<close> for an integer \<open>n\<close>.\<close>

definition f64_of_int :: "int \<Rightarrow> float64" where
  "f64_of_int n = f64_round (n < 0) \<bar>of_int n\<bar>"

fun f64_mul :: "float64 \<Rightarrow> float64 \<Rightarrow> float64" where
  "f64_mul NaN _ = NaN"
| "f64_mul _ NaN = NaN"
| "f64_mul (Inf s) (Inf t) = Inf (s \<noteq> t)"
| "f64_mul (Inf s) (Float t n) = (if n = 0 then NaN else Inf (s \<noteq> t))"
| "f64_mul (Float s m) (Inf t) = (if m = 0 then NaN else Inf (s \<noteq> t))"
| "f64_mul (Float s m) (Float t n) = f64_round (s \<noteq> t) (m * n)"

fun f64_div :: "float64 \<Rightarrow> float64 \<Rightarrow> float64" where
  "f64_div NaN _ = NaN"
| "f64_div _ NaN = NaN"
| "f64_div (Inf s) (Inf t) = NaN"
| "f64_div (Inf s) (Float t n) = Inf (s \<noteq> t)"
| "f64_div (Float s m) (Inf t) = Float (s \<noteq> t) 0"
| "f64_div (Float s m) (Float t n) =
     (if n = 0 then (if m = 0 then NaN else Inf (s \<noteq> t))
      else f64_round (s \<noteq> t) (m / n))"

text \<open>
  The conversion of a \<^verbatim>\<open>float64\<close> to \<^verbatim>\<open>int\<close> or \<^verbatim>\<open>int64\<close> truncates towards zero.
  When the value is not representable (too large, an infinity, a NaN) the conversion
  succeeds and its result depends on the implementation: \<open>conv\<close> stands for what the
  platform gives there.
\<close>

definition f64_to_int64 :: "(float64 \<Rightarrow> int) \<Rightarrow> float64 \<Rightarrow> int" where
  "f64_to_int64 conv f =
     (case f of
        Float s m \<Rightarrow>
          (let v = (if s then - \<lfloor>m\<rfloor> else \<lfloor>m\<rfloor>)
           in if - (2 ^ 63) \<le> v \<and> v < 2 ^ 63 then v else wrap64 (conv f))
      | _ \<Rightarrow> wrap64 (conv f))"

text \<open>
  One platform: the conversion instruction of amd64 gives the smallest \<^verbatim>\<open>int64\<close> for
  every value it cannot represent. It serves where a concrete platform is needed.
\<close>

definition conv_amd64 :: "float64 \<Rightarrow> int" where
  "conv_amd64 f = - (2 ^ 63)"

subsection \<open>\<^verbatim>\<open>net.ParseIP\<close>\<close>

text \<open>
  \<^verbatim>\<open>net.ParseIP\<close> belongs to the Go standard library. It accepts dotted-decimal IPv4
  (four decimal fields of at most 255, no leading zero), IPv6 (hexadecimal groups of at
  most four digits, one \<^verbatim>\<open>::\<close>, an IPv4 tail) and nothing else (no zone), and returns
  the 16-byte form of the address, an IPv4 address as \<^verbatim>\<open>::ffff:a.b.c.d\<close>, or \<^verbatim>\<open>nil\<close>.
  The model follows the library's parser: the first \<^verbatim>\<open>.\<close> or \<^verbatim>\<open>:\<close> of the text
  decides between the two forms.
\<close>

definition digit_val :: "char \<Rightarrow> nat option" where
  "digit_val c =
     (let n = (of_char c :: nat) in if 48 \<le> n \<and> n \<le> 57 then Some (n - 48) else None)"

definition hex_val :: "char \<Rightarrow> nat option" where
  "hex_val c =
     (let n = (of_char c :: nat)
      in if 48 \<le> n \<and> n \<le> 57 then Some (n - 48)
         else if 97 \<le> n \<and> n \<le> 102 then Some (n - 87)
         else if 65 \<le> n \<and> n \<le> 70 then Some (n - 55)
         else None)"

text \<open>
  The loop over the characters of a dotted quad: \<open>val\<close> and \<open>digLen\<close> are the value and
  the number of digits of the field being read, \<open>fields\<close> the fields already closed by a
  dot. A dot is refused as the first character, as the last one and after another dot,
  that is, when the field it closes has no digit or nothing follows it.
\<close>

fun parseIPv4Fields :: "string \<Rightarrow> nat \<Rightarrow> nat \<Rightarrow> byte list \<Rightarrow> byte list option" where
  "parseIPv4Fields [] val digLen fields =
     (if length fields < 3 then None else Some (fields @ [of_nat val]))"
| "parseIPv4Fields (c # cs) val digLen fields =
     (case digit_val c of
        Some d \<Rightarrow>
          if digLen = 1 \<and> val = 0 then None
          else if 255 < val * 10 + d then None
          else parseIPv4Fields cs (val * 10 + d) (digLen + 1) fields
      | None \<Rightarrow>
          if c = CHR ''.'' then
            (if digLen = 0 \<or> cs = [] then None
             else if length fields = 3 then None
             else parseIPv4Fields cs 0 0 (fields @ [of_nat val]))
          else None)"

definition v4InV6Prefix :: "byte list" where
  "v4InV6Prefix = replicate 10 0 @ [0xff, 0xff]"

definition parseIPv4 :: "string \<Rightarrow> byte list option" where
  "parseIPv4 s = map_option (\<lambda>fields. v4InV6Prefix @ fields) (parseIPv4Fields s 0 0 [])"

text \<open>
  A group of hexadecimal digits at the head of \<open>s\<close>: its value, the number of digits and
  the rest of the text; a fifth digit is an error.
\<close>

fun hex_group :: "string \<Rightarrow> nat \<Rightarrow> nat \<Rightarrow> (nat \<times> nat \<times> string) option" where
  "hex_group [] acc off = Some (acc, off, [])"
| "hex_group (c # cs) acc off =
     (case hex_val c of
        None \<Rightarrow> Some (acc, off, c # cs)
      | Some d \<Rightarrow>
          if 3 < off then None
          else if 65535 < acc * 16 + d then None
          else hex_group cs (acc * 16 + d) (off + 1))"

text \<open>
  The loop of the IPv6 parser. \<open>ip\<close> holds the bytes written so far (the index \<open>i\<close> of
  the library is its length), \<open>ellipsis\<close> the position of the \<^verbatim>\<open>::\<close> if one was seen.
  It returns the bytes, the ellipsis and the text left over.
\<close>

function ipv6_loop ::
  "string \<Rightarrow> byte list \<Rightarrow> nat option \<Rightarrow> (byte list \<times> nat option \<times> string) option" where
  "ipv6_loop s ip ellipsis =
     (if 16 \<le> length ip then Some (ip, ellipsis, s)
      else case hex_group s 0 0 of
        None \<Rightarrow> None
      | Some (acc, off, rest) \<Rightarrow>
          if off = 0 then None
          else if rest \<noteq> [] \<and> hd rest = CHR ''.'' then
            (if ellipsis = None \<and> length ip \<noteq> 12 then None
             else if 16 < length ip + 4 then None
             else case parseIPv4Fields s 0 0 [] of
                    None \<Rightarrow> None
                  | Some fields \<Rightarrow> Some (ip @ fields, ellipsis, []))
          else
            (let ip' = ip @ [of_nat (acc div 256), of_nat acc]
             in if rest = [] then Some (ip', ellipsis, [])
                else if hd rest \<noteq> CHR '':'' then None
                else if length rest = 1 then None
                else if hd (tl rest) = CHR '':'' then
                  (if ellipsis \<noteq> None then None
                   else if tl (tl rest) = [] then Some (ip', Some (length ip'), [])
                   else ipv6_loop (tl (tl rest)) ip' (Some (length ip')))
                else ipv6_loop (tl rest) ip' ellipsis))"
  by pat_completeness auto
termination
  by (relation "measure (\<lambda>(s, ip, ellipsis). 16 - length ip)") auto

declare ipv6_loop.simps [simp del]

definition parseIPv6 :: "string \<Rightarrow> byte list option" where
  "parseIPv6 s =
     (if CHR ''%'' \<in> set s then None
      else if take 2 s = ''::'' \<and> drop 2 s = [] then Some (replicate 16 0)
      else case (if take 2 s = ''::'' then ipv6_loop (drop 2 s) [] (Some 0)
                 else ipv6_loop s [] None) of
        None \<Rightarrow> None
      | Some (ip, ellipsis, rest) \<Rightarrow>
          if rest \<noteq> [] then None
          else if length ip < 16 then
            (case ellipsis of
               None \<Rightarrow> None
             | Some e \<Rightarrow> Some (take e ip @ replicate (16 - length ip) 0 @ drop e ip))
          else if ellipsis \<noteq> None then None
          else Some ip)"

fun ParseIP_scan :: "string \<Rightarrow> string \<Rightarrow> byte list option" where
  "ParseIP_scan s [] = None"
| "ParseIP_scan s (c # cs) =
     (if c = CHR ''.'' then parseIPv4 s
      else if c = CHR '':'' then parseIPv6 s
      else if c = CHR ''%'' then None
      else ParseIP_scan s cs)"

definition ParseIP :: "string \<Rightarrow> byte list option" where
  "ParseIP s = ParseIP_scan s s"

subsection \<open>\<^verbatim>\<open>IPToXY\<close> (lines 329 to 343)\<close>

text \<open>
  \<^verbatim>\<open>
  x = int(float64(int(ip[12])<<8+int(ip[13]))/0xffff*float64(width)) - width/2
  \<close>
  One coordinate from two bytes of the address and the size of the world in that
  direction; \<^verbatim>\<open>IPToXY\<close> computes \<open>x\<close> from bytes 12 and 13 and the width, then \<open>y\<close> from
  bytes 14 and 15 and the height.
\<close>

definition scale :: "(float64 \<Rightarrow> int) \<Rightarrow> byte \<Rightarrow> byte \<Rightarrow> int \<Rightarrow> int" where
  "scale conv hi lo n =
     wrap64 (f64_to_int64 conv
               (f64_mul (f64_div (f64_of_int (push_bit 8 (uint hi) + uint lo)) (f64_of_int 0xffff))
                        (f64_of_int n))
             - go_quot n 2)"

definition IPToXY :: "(float64 \<Rightarrow> int) \<Rightarrow> string \<Rightarrow> int \<Rightarrow> int \<Rightarrow> panic + (int \<times> int)" where
  "IPToXY conv addr width height =
     (case ParseIP addr of
        None \<Rightarrow> Inr (0, 0)
      | Some ip \<Rightarrow>
          and_then (index ip 12) (\<lambda>b12.
          and_then (index ip 13) (\<lambda>b13.
          and_then (index ip 14) (\<lambda>b14.
          and_then (index ip 15) (\<lambda>b15.
            Inr (scale conv b12 b13 width, scale conv b14 b15 height))))))"


subsection \<open>\<^verbatim>\<open>time.Time\<close>, \<^verbatim>\<open>Sub\<close> and \<^verbatim>\<open>Microseconds\<close>\<close>

text \<open>
  A \<^verbatim>\<open>time.Time\<close> is an instant, in seconds since 1 January of year 1, 00:00:00 UTC, and
  nanoseconds within the second, with a pointer to a location. The zero value
  \<^verbatim>\<open>time.Time{}\<close> is the instant 0 with the nil pointer; \<^verbatim>\<open>!=\<close> compares the three
  fields. A \<^verbatim>\<open>time.Duration\<close> is an \<^verbatim>\<open>int64\<close> of nanoseconds.
\<close>

record Time =
  sec :: int
  nsec :: int
  loc :: "int option"

definition noTime :: Time where
  "noTime = \<lparr>sec = 0, nsec = 0, loc = None\<rparr>"

text \<open>\<^verbatim>\<open>t.Sub(u)\<close>: the difference in nanoseconds, or the nearest \<^verbatim>\<open>int64\<close> when out of range.\<close>

definition Sub :: "Time \<Rightarrow> Time \<Rightarrow> int" where
  "Sub t u =
     (let d = (sec t - sec u) * 1000000000 + (nsec t - nsec u)
      in if d < - (2 ^ 63) then - (2 ^ 63) else if 2 ^ 63 - 1 < d then 2 ^ 63 - 1 else d)"

definition Microseconds :: "int \<Rightarrow> int" where
  "Microseconds d = go_quot d 1000"

subsection \<open>\<^verbatim>\<open>time.Parse\<close> with the layout \<^verbatim>\<open>02/Jan/2006:15:04:05 -0700\<close>\<close>

text \<open>
  \<^verbatim>\<open>time.Parse\<close> belongs to the Go standard library. With this layout it reads a
  two-digit day, a slash, the three-letter month name in any case, a slash, a four-digit
  year, a colon, the hour in one or two digits, a colon, two-digit minutes, a colon,
  two-digit seconds, a fraction of a second if a period or a comma and a digit follow,
  spaces, and a sign with four digits of zone offset; nothing may follow. The hour is
  below 24, minutes and seconds below 60, the day within the month, the offset at most
  24 hours and 60 minutes. Every failure is one error here, the messages are not
  modelled.
\<close>

fun getnum :: "string \<Rightarrow> bool \<Rightarrow> (nat \<times> string) option" where
  "getnum [] fixed = None"
| "getnum [c] fixed =
     (case digit_val c of None \<Rightarrow> None | Some a \<Rightarrow> if fixed then None else Some (a, []))"
| "getnum (c # d # s) fixed =
     (case digit_val c of
        None \<Rightarrow> None
      | Some a \<Rightarrow>
          (case digit_val d of
             None \<Rightarrow> if fixed then None else Some (a, d # s)
           | Some b \<Rightarrow> Some (a * 10 + b, s)))"

text \<open>\<^verbatim>\<open>skip\<close> for a one-character prefix: a space stands for any number of spaces.\<close>

definition skip :: "string \<Rightarrow> char \<Rightarrow> string option" where
  "skip val c =
     (if c = CHR '' '' then
        (case val of
           [] \<Rightarrow> Some []
         | v # vs \<Rightarrow> if v = CHR '' '' then Some (dropWhile (\<lambda>x. x = CHR '' '') val) else None)
      else
        (case val of [] \<Rightarrow> None | v # vs \<Rightarrow> if v = c then Some vs else None))"

definition shortMonthNames :: "string list" where
  "shortMonthNames =
     [''Jan'', ''Feb'', ''Mar'', ''Apr'', ''May'', ''Jun'',
      ''Jul'', ''Aug'', ''Sep'', ''Oct'', ''Nov'', ''Dec'']"

text \<open>Two bytes match when equal, or when they are the same letter in either case.\<close>

definition match_byte :: "char \<Rightarrow> char \<Rightarrow> bool" where
  "match_byte c1 c2 =
     (if c1 = c2 then True
      else (let l1 = (of_char c1 :: nat) OR 32; l2 = (of_char c2 :: nat) OR 32
            in l1 = l2 \<and> 97 \<le> l1 \<and> l1 \<le> 122))"

definition match :: "string \<Rightarrow> string \<Rightarrow> bool" where
  "match s1 s2 = list_all2 match_byte s1 s2"

fun lookup :: "string list \<Rightarrow> nat \<Rightarrow> string \<Rightarrow> (nat \<times> string) option" where
  "lookup [] i val = None"
| "lookup (v # tab) i val =
     (if length v \<le> length val \<and> match (take (length v) val) v
      then Some (i, drop (length v) val)
      else lookup tab (i + 1) val)"

fun digits_val :: "string \<Rightarrow> nat \<Rightarrow> nat option" where
  "digits_val [] acc = Some acc"
| "digits_val (c # cs) acc =
     (case digit_val c of None \<Rightarrow> None | Some d \<Rightarrow> digits_val cs (acc * 10 + d))"

text \<open>The four-digit year.\<close>

definition year4 :: "string \<Rightarrow> (nat \<times> string) option" where
  "year4 val =
     (if length val < 4 then None
      else map_option (\<lambda>y. (y, drop 4 val)) (digits_val (take 4 val) 0))"

text \<open>
  A fraction of a second after the seconds, although the layout has none: the separator
  and the digits are consumed, the first nine digits count.
\<close>

definition commaOrPeriod :: "char \<Rightarrow> bool" where
  "commaOrPeriod c = (c = CHR ''.'' \<or> c = CHR '','')"

definition is_digit :: "char \<Rightarrow> bool" where
  "is_digit c = (case digit_val c of None \<Rightarrow> False | Some d \<Rightarrow> True)"

definition fraction :: "string \<Rightarrow> (nat \<times> string) option" where
  "fraction val =
     (case val of
        c # d # rest \<Rightarrow>
          if commaOrPeriod c \<and> is_digit d then
            (let ds = takeWhile is_digit (d # rest);
                 ds9 = take 9 ds
             in map_option (\<lambda>n. (n * 10 ^ (9 - length ds9), dropWhile is_digit (d # rest)))
                  (digits_val ds9 0))
          else Some (0, val)
      | _ \<Rightarrow> Some (0, val))"

text \<open>The zone offset \<^verbatim>\<open>-0700\<close>, in seconds east of UTC.\<close>

definition numTZ :: "string \<Rightarrow> (int \<times> string) option" where
  "numTZ val =
     (if length val < 5 then None
      else do {
        (hr, r1) \<leftarrow> getnum (take 2 (drop 1 val)) True;
        (mm, r2) \<leftarrow> getnum (take 2 (drop 3 val)) True;
        if 24 < hr \<or> 60 < mm then None
        else if hd val = CHR ''+'' then Some (int ((hr * 60 + mm) * 60), drop 5 val)
        else if hd val = CHR ''-'' then Some (- int ((hr * 60 + mm) * 60), drop 5 val)
        else None
      })"

definition isLeap :: "int \<Rightarrow> bool" where
  "isLeap y = (if y mod 400 = 0 then True else if y mod 100 = 0 then False else y mod 4 = 0)"

definition daysIn :: "nat \<Rightarrow> int \<Rightarrow> nat" where
  "daysIn m y =
     (if m = 2 then (if isLeap y then 29 else 28)
      else if m = 4 \<or> m = 6 \<or> m = 9 \<or> m = 11 then 30 else 31)"

text \<open>The days from 1 January of year 1 to the given day of the proleptic Gregorian calendar.\<close>

definition daysSinceEpoch :: "int \<Rightarrow> nat \<Rightarrow> nat \<Rightarrow> int" where
  "daysSinceEpoch y m d =
     365 * (y - 1) + (y - 1) div 4 - (y - 1) div 100 + (y - 1) div 400
     + int (sum_list (map (\<lambda>k. daysIn k y) [1..<m])) + (int d - 1)"

definition Date ::
  "int \<Rightarrow> nat \<Rightarrow> nat \<Rightarrow> nat \<Rightarrow> nat \<Rightarrow> nat \<Rightarrow> int" where
  "Date y m d hh mi ss = daysSinceEpoch y m d * 86400 + int (hh * 3600 + mi * 60 + ss)"

text \<open>
  The parsed time is the instant of the civil time less the offset; its location is the
  local zone or a zone made for the offset, never the nil pointer.
\<close>

definition time_Parse :: "string \<Rightarrow> Time option" where
  "time_Parse val0 = do {
     (day, v) \<leftarrow> getnum val0 True;
     v \<leftarrow> skip v CHR ''/'';
     (month0, v) \<leftarrow> lookup shortMonthNames 0 v;
     v \<leftarrow> skip v CHR ''/'';
     (year, v) \<leftarrow> year4 v;
     v \<leftarrow> skip v CHR '':'';
     (hour, v) \<leftarrow> getnum v False;
     v \<leftarrow> skip v CHR '':'';
     (minute, v) \<leftarrow> getnum v True;
     v \<leftarrow> skip v CHR '':'';
     (second, v) \<leftarrow> getnum v True;
     (ns, v) \<leftarrow> (if second < 60 then fraction v else None);
     v \<leftarrow> skip v CHR '' '';
     (zoneOffset, v) \<leftarrow> numTZ v;
     if v \<noteq> [] then None
     else if 24 \<le> hour \<or> 60 \<le> minute then None
     else if day < 1 \<or> daysIn (month0 + 1) (int year) < day then None
     else Some \<lparr>sec = Date (int year) (month0 + 1) day hour minute second - zoneOffset,
                nsec = int ns, loc = Some zoneOffset\<rparr>
   }"

subsection \<open>The delay of the main loop (line 274)\<close>

text \<open>
  \<^verbatim>\<open>
  delay := time.Duration(float64(timestamp.Sub(lastTime).Microseconds())*1/cfg.Speed) * time.Microsecond
  \<close>
  The constant 1 is a \<^verbatim>\<open>float64\<close>, the product is divided by the speed, the quotient is
  converted to an \<^verbatim>\<open>int64\<close> and multiplied by 1000 within \<^verbatim>\<open>int64\<close>. The result is in
  nanoseconds.
\<close>

definition delay_quotient :: "Time \<Rightarrow> Time \<Rightarrow> float64 \<Rightarrow> float64" where
  "delay_quotient lastTime timestamp speed =
     f64_div (f64_mul (f64_of_int (Microseconds (Sub timestamp lastTime))) (Float False 1)) speed"

definition delay :: "(float64 \<Rightarrow> int) \<Rightarrow> Time \<Rightarrow> Time \<Rightarrow> float64 \<Rightarrow> int" where
  "delay conv lastTime timestamp speed =
     wrap64 (f64_to_int64 conv (delay_quotient lastTime timestamp speed) * 1000)"

text \<open>\<^verbatim>\<open>time.Sleep(d)\<close> returns at once when \<open>d\<close> is negative or zero: the time it blocks.\<close>

definition slept :: "int \<Rightarrow> int" where
  "slept d = max 0 d"

subsection \<open>\<^verbatim>\<open>strings.SplitN\<close> and \<^verbatim>\<open>strings.TrimSpace\<close>\<close>

text \<open>
  \<^verbatim>\<open>strings.SplitN(s, sep, n)\<close> for a separator of one character: at most \<open>n\<close> pieces,
  cut at the first \<open>n - 1\<close> separators, the last piece the unsplit remainder; no piece
  when \<open>n\<close> is 0.
\<close>

fun SplitN :: "string \<Rightarrow> char \<Rightarrow> nat \<Rightarrow> string list" where
  "SplitN s sep 0 = []"
| "SplitN s sep (Suc 0) = [s]"
| "SplitN s sep (Suc (Suc n)) =
     (if sep \<in> set s
      then takeWhile (\<lambda>c. c \<noteq> sep) s # SplitN (tl (dropWhile (\<lambda>c. c \<noteq> sep) s)) sep (Suc n)
      else [s])"

text \<open>
  \<^verbatim>\<open>strings.TrimSpace(s) == ""\<close>: every code point of \<open>s\<close> is white space. The white space
  of Unicode, in UTF-8: the ASCII tab, line feed, vertical tab, form feed, carriage return
  and space; U+0085 and U+00A0; U+1680; U+2000 to U+200A, U+2028, U+2029, U+202F; U+205F;
  U+3000. A byte that starts no valid encoding is not white space.
\<close>

fun white :: "nat list \<Rightarrow> bool" where
  "white [] = True"
| "white (a # r) =
     (if a = 9 \<or> a = 10 \<or> a = 11 \<or> a = 12 \<or> a = 13 \<or> a = 32 then white r
      else if a = 0xC2 then
        (case r of b # r' \<Rightarrow> (b = 0x85 \<or> b = 0xA0) \<and> white r' | [] \<Rightarrow> False)
      else if a = 0xE1 then
        (case r of b # c # r' \<Rightarrow> b = 0x9A \<and> c = 0x80 \<and> white r' | _ \<Rightarrow> False)
      else if a = 0xE2 then
        (case r of
           b # c # r' \<Rightarrow>
             ((b = 0x80 \<and> (0x80 \<le> c \<and> c \<le> 0x8A \<or> c = 0xA8 \<or> c = 0xA9 \<or> c = 0xAF))
              \<or> (b = 0x81 \<and> c = 0x9F)) \<and> white r'
         | _ \<Rightarrow> False)
      else if a = 0xE3 then
        (case r of b # c # r' \<Rightarrow> b = 0x80 \<and> c = 0x80 \<and> white r' | _ \<Rightarrow> False)
      else False)"

definition blank :: "string \<Rightarrow> bool" where
  "blank s = white (map of_char s)"

subsection \<open>\<^verbatim>\<open>LineToPattern\<close> (lines 293 to 326)\<close>

text \<open>
  The errors that \<^verbatim>\<open>LineToPattern\<close> returns: the one it makes itself, and the one of
  \<^verbatim>\<open>time.Parse\<close>. A slice expression \<^verbatim>\<open>s[1:]\<close> panics on the empty string.
\<close>

datatype error = NoClientIP | TimeParseError

definition slice_from :: "string \<Rightarrow> nat \<Rightarrow> panic + string" where
  "slice_from s i = (if i \<le> length s then Inr (drop i s) else Inl (SliceBoundsOutOfRange i (length s)))"

definition LineToPattern ::
  "(float64 \<Rightarrow> int) \<Rightarrow> string \<Rightarrow> int \<Rightarrow> int \<Rightarrow> panic + (error + string list \<times> Time)" where
  "LineToPattern conv line width height =
     and_then (index (SplitN line CHR '' '' 4) 0) (\<lambda>f0.
       if f0 = ''-'' \<or> blank f0 then Inr (Inl NoClientIP)
       else
         and_then (IPToXY conv f0 width height) (\<lambda>(x, y).
         and_then (index (SplitN line CHR '' '' 4) 3) (\<lambda>f3.
         and_then (index (SplitN f3 CHR '']'' 2) 0) (\<lambda>t0.
         and_then (slice_from t0 1) (\<lambda>t1.
           (case time_Parse t1 of
              None \<Rightarrow> Inr (Inl TimeParseError)
            | Some timestamp \<Rightarrow>
                and_then (index (SplitN f3 CHR '']'' 2) 1) (\<lambda>payload.
                  Inr (Inr (MakeLife105 x y (xorData (bytes payload)), timestamp)))))))))"

subsection \<open>The loop of \<^verbatim>\<open>main\<close> (lines 260 to 290)\<close>

text \<open>
  What the loop does that can be seen from outside, in order: a logged error, the delay
  it prints and sleeps, the pattern it prints and sends, the error of a failed send. The
  transport is a parameter: \<open>send i\<close> tells whether the send for input line \<open>i\<close>
  succeeds. The state of the loop is \<open>lastTime\<close>. A panic ends the run: the loop returns
  what it did before and the panic.
\<close>

datatype event = LogPrint error | Delaying int | Pattern "string list" | SendFailed

record cmdlineArgs =
  Speed :: float64
  Columns :: int
  Rows :: int

fun main_loop ::
  "(float64 \<Rightarrow> int) \<Rightarrow> cmdlineArgs \<Rightarrow> (nat \<Rightarrow> bool) \<Rightarrow> Time \<Rightarrow> nat \<Rightarrow> string list
     \<Rightarrow> event list \<times> panic option" where
  "main_loop conv cfg send lastTime i [] = ([], None)"
| "main_loop conv cfg send lastTime i (line # lines) =
     (case LineToPattern conv line (Columns cfg) (Rows cfg) of
        Inl p \<Rightarrow> ([], Some p)
      | Inr (Inl err) \<Rightarrow>
          (let (evs, r) = main_loop conv cfg send lastTime (i + 1) lines
           in (LogPrint err # evs, r))
      | Inr (Inr (pattern, timestamp)) \<Rightarrow>
          (let (evs, r) = main_loop conv cfg send timestamp (i + 1) lines
           in ((if lastTime \<noteq> noTime then [Delaying (delay conv lastTime timestamp (Speed cfg))]
                else [])
               @ [Pattern pattern] @ (if send i then [] else [SendFailed]) @ evs, r)))"

subsection \<open>Decimal numerals, as the specification reads them\<close>

text \<open>
  What it means for a text to be the decimal numeral of an integer, said without the
  printer: the text is a minus sign or nothing, then decimal digits with no leading zero
  (the single digit 0 apart, and no minus before it), and the digits, read from the left,
  give the magnitude.
\<close>

definition digit_of :: "char \<Rightarrow> nat option" where
  "digit_of c =
     map_of [(CHR ''0'', 0), (CHR ''1'', 1), (CHR ''2'', 2), (CHR ''3'', 3), (CHR ''4'', 4),
             (CHR ''5'', 5), (CHR ''6'', 6), (CHR ''7'', 7), (CHR ''8'', 8), (CHR ''9'', 9)] c"

fun numeral_value :: "string \<Rightarrow> nat \<Rightarrow> nat option" where
  "numeral_value [] acc = Some acc"
| "numeral_value (c # cs) acc =
     (case digit_of c of None \<Rightarrow> None | Some d \<Rightarrow> numeral_value cs (10 * acc + d))"

definition read_nat :: "string \<Rightarrow> nat option" where
  "read_nat s =
     (if s = [] then None
      else if hd s = CHR ''0'' \<and> tl s \<noteq> [] then None
      else numeral_value s 0)"

definition read_decimal :: "string \<Rightarrow> int option" where
  "read_decimal s =
     (case s of
        [] \<Rightarrow> None
      | c # cs \<Rightarrow>
          if c = CHR ''-'' then
            (case read_nat cs of
               None \<Rightarrow> None
             | Some n \<Rightarrow> if n = 0 then None else Some (- int n))
          else map_option int (read_nat s))"

subsection \<open>The text of an address, as the specification reads it\<close>

text \<open>
  The textual forms of an IPv6 address: eight groups of one to four hexadecimal digits
  joined by colons; the same with one run of zero groups written as a double colon; and
  either form with the last two groups written as a dotted quad of four decimal numbers
  up to 255. No zone identifier belongs to the address text. The bytes of a text are the
  two bytes of each group, high byte first, zero bytes where the double colon stands, and
  the four numbers of the dotted quad.
\<close>

definition hex_digits :: string where
  "hex_digits = ''0123456789abcdef''"

definition hex_digits_upper :: string where
  "hex_digits_upper = ''0123456789ABCDEF''"

definition hex_digit :: "char \<Rightarrow> bool" where
  "hex_digit c = (c \<in> set hex_digits \<or> c \<in> set hex_digits_upper)"

definition hex_digit_value :: "char \<Rightarrow> nat" where
  "hex_digit_value c =
     (if c \<in> set hex_digits then length (takeWhile (\<lambda>d. d \<noteq> c) hex_digits)
      else length (takeWhile (\<lambda>d. d \<noteq> c) hex_digits_upper))"

definition group_value :: "string \<Rightarrow> nat" where
  "group_value g = foldl (\<lambda>a c. 16 * a + hex_digit_value c) 0 g"

definition wf_group :: "string \<Rightarrow> bool" where
  "wf_group g = (1 \<le> length g \<and> length g \<le> 4 \<and> list_all hex_digit g)"

definition group_bytes :: "string \<Rightarrow> byte list" where
  "group_bytes g = [of_nat (group_value g div 256), of_nat (group_value g mod 256)]"

fun join_groups :: "string list \<Rightarrow> string" where
  "join_groups [] = []"
| "join_groups [g] = g"
| "join_groups (g # h # gs) = g @ CHR '':'' # join_groups (h # gs)"

definition ipv6_bytes :: "string list \<Rightarrow> string list \<Rightarrow> byte list" where
  "ipv6_bytes pre post =
     concat (map group_bytes pre) @ replicate (16 - 2 * (length pre + length post)) 0
       @ concat (map group_bytes post)"

definition wf_octet :: "string \<Rightarrow> bool" where
  "wf_octet d = (case read_nat d of None \<Rightarrow> False | Some n \<Rightarrow> n \<le> 255)"

definition octet_value :: "string \<Rightarrow> nat" where
  "octet_value d = (case read_nat d of None \<Rightarrow> 0 | Some n \<Rightarrow> n)"

definition dotted_quad :: "string \<Rightarrow> string \<Rightarrow> string \<Rightarrow> string \<Rightarrow> string" where
  "dotted_quad a b c d = a @ ''.'' @ b @ ''.'' @ c @ ''.'' @ d"

definition quad_bytes :: "string \<Rightarrow> string \<Rightarrow> string \<Rightarrow> string \<Rightarrow> byte list" where
  "quad_bytes a b c d =
     [of_nat (octet_value a), of_nat (octet_value b), of_nat (octet_value c), of_nat (octet_value d)]"

definition ipv6_mixed_bytes ::
  "string list \<Rightarrow> string list \<Rightarrow> string \<Rightarrow> string \<Rightarrow> string \<Rightarrow> string \<Rightarrow> byte list" where
  "ipv6_mixed_bytes pre post a b c d =
     concat (map group_bytes pre) @ replicate (12 - 2 * (length pre + length post)) 0
       @ concat (map group_bytes post) @ quad_bytes a b c d"

definition mixed_tail :: "string list \<Rightarrow> string \<Rightarrow> string" where
  "mixed_tail post quad = (if post = [] then quad else join_groups post @ CHR '':'' # quad)"

subsection \<open>A sample line and some instants\<close>

text \<open>
  The line of the specification's example, and the instants of 20 November 2022 at
  02:27:47, 02:27:49, 02:27:50 and 02:27:54 UTC as \<^verbatim>\<open>time.Parse\<close> returns them.
\<close>

definition sample_line :: string where
  "sample_line = ''10.0.0.1 - - [20/Nov/2022:02:27:49 +0000] \"GET / HTTP/1.1\" 200 100''"

definition t49 :: Time where
  "t49 = \<lparr>sec = 63804508069, nsec = 0, loc = Some 0\<rparr>"

definition t47 :: Time where
  "t47 = \<lparr>sec = 63804508067, nsec = 0, loc = Some 0\<rparr>"

definition t50 :: Time where
  "t50 = \<lparr>sec = 63804508070, nsec = 0, loc = Some 0\<rparr>"

definition t54 :: Time where
  "t54 = \<lparr>sec = 63804508074, nsec = 0, loc = Some 0\<rparr>"

definition t51 :: Time where
  "t51 = \<lparr>sec = 63804508071, nsec = 0, loc = Some 0\<rparr>"

text \<open>A second line, two seconds after the sample line, and a line without an address.\<close>

definition sample_line2 :: string where
  "sample_line2 = ''10.0.0.1 - - [20/Nov/2022:02:27:51 +0000] \"GET / HTTP/1.1\" 200 100''"

definition no_address_line :: string where
  "no_address_line = ''- - - [20/Nov/2022:02:27:50 +0000] \"GET / HTTP/1.1\" 200 100''"

section \<open>Properties of the XOR fold\<close>


lemma length_xor_loop: "length (xor_loop data idx bs) = length data"
  by (induction bs arbitrary: data idx) auto

lemma xor_loop_unquoted: "xor_loop data idx (unquoted bs) = xor_loop data idx bs"
  by (induction bs arbitrary: data idx) (auto simp: unquoted_def)

lemma filter_upt_Suc_shift:
  "filter P [0..<Suc n] = (if P 0 then [0] else []) @ map Suc (filter (P \<circ> Suc) [0..<n])"
proof -
  have "[0..<Suc n] = 0 # map Suc [0..<n]"
    by (simp add: upt_conv_Cons map_Suc_upt del: upt_Suc)
  then show ?thesis by (simp add: filter_map del: upt_Suc)
qed

lemma xor_loop_nth:
  assumes "quote \<notin> set q" "idx < 8" "j < 8" "length data = 8"
  shows "xor_loop data idx q ! j =
     data ! j XOR xor_all (map (\<lambda>i. q ! i) (filter (\<lambda>i. (idx + i) mod 8 = j) [0..<length q]))"
  using assms
proof (induction q arbitrary: data idx)
  case Nil
  then show ?case by (simp add: xor_all_def)
next
  case (Cons b bs)
  let ?d = "data[idx := data ! idx XOR b]"
  let ?i = "(idx + 1) mod 8"
  have nq: "b \<noteq> quote" "quote \<notin> set bs" using Cons.prems by auto
  have IH: "xor_loop ?d ?i bs ! j =
     ?d ! j XOR xor_all (map (\<lambda>i. bs ! i) (filter (\<lambda>i. (?i + i) mod 8 = j) [0..<length bs]))"
    using Cons.IH [of ?i ?d] nq Cons.prems by simp
  have eqm: "(\<lambda>i. (?i + i) mod 8 = j) = (\<lambda>i. (idx + Suc i) mod 8 = j)"
    by (simp add: mod_add_left_eq)
  define rest where "rest = xor_all (map (\<lambda>i. bs ! i) (filter (\<lambda>i. (idx + Suc i) mod 8 = j) [0..<length bs]))"
  have IH': "xor_loop ?d ?i bs ! j = ?d ! j XOR rest"
    using IH unfolding eqm rest_def .
  have split: "xor_all (map (\<lambda>i. (b # bs) ! i) (filter (\<lambda>i. (idx + i) mod 8 = j) [0..<length (b # bs)]))
     = (if idx = j then b XOR rest else rest)"
    using Cons.prems(2,3)
    by (simp add: filter_upt_Suc_shift comp_def xor_all_def filter_map rest_def del: upt_Suc)
  have "xor_loop data idx (b # bs) ! j = ?d ! j XOR rest"
    using nq IH' by simp
  also have "\<dots> = data ! j XOR (if idx = j then b XOR rest else rest)"
    using Cons.prems by (simp add: nth_list_update ac_simps)
  finally show ?case unfolding split .
qed

lemma xorData_nth:
  assumes "j < 8"
  shows "xorData p ! j = fingerprint_spec p j"
proof -
  have "xorData p = xorData (unquoted p)"
    by (simp add: xorData_def xor_loop_unquoted)
  moreover have "quote \<notin> set (unquoted p)" by (simp add: unquoted_def)
  ultimately show ?thesis using assms
    by (simp add: xorData_def xor_loop_nth fingerprint_spec_def)
qed


lemma length_xorData: "length (xorData p) = 8"
  by (simp add: xorData_def length_xor_loop)

section \<open>Properties of the rendering\<close>

lemma top_bit_test: "(b AND 0x80 = 0x80) = bit b 7" for b :: byte
proof -
  have e: "(0x80 :: byte) = 2 ^ 7" by simp
  show ?thesis unfolding e
  proof
    assume "b AND 2 ^ 7 = 2 ^ 7"
    then have "b AND 2 ^ 7 \<noteq> 0" by simp
    then show "bit b 7" using and_exp_eq_0_iff_not_bit [of b 7] by blast
  next
    assume "bit b 7"
    show "b AND 2 ^ 7 = 2 ^ 7"
    proof (rule bit_eqI)
      fix n
      show "bit (b AND 2 ^ 7) n = bit (2 ^ 7 :: byte) n"
        using \<open>bit b 7\<close> unfolding bit_and_iff bit_exp_iff by auto
    qed
  qed
qed

lemma bit_shl1: "0 < n \<Longrightarrow> n < 8 \<Longrightarrow> bit (push_bit 1 b) n = bit b (n - 1)" for b :: byte
  unfolding bit_push_bit_iff by auto

lemma upt_shift: "[0..<Suc n] = 0 # map Suc [0..<n]"
  by (simp add: upt_conv_Cons map_Suc_upt del: upt_Suc)

lemma bits_loop_eq:
  "i \<le> 8 \<Longrightarrow> bits_loop i b line = line @ map (\<lambda>k. cell (bit b (7 - k))) [0..<8 - i]"
proof (induction i b line rule: bits_loop.induct)
  case (1 i b line)
  show ?case
  proof (cases "i < 8")
    case False
    with "1.prems" show ?thesis by (subst bits_loop.simps) simp
  next
    case True
    then have n: "8 - i = Suc (8 - (i + 1))" by simp
    have sh: "map (\<lambda>k. cell (bit (push_bit 1 b) (7 - k))) [0..<8 - (i + 1)]
            = map (\<lambda>k. cell (bit b (7 - Suc k))) [0..<8 - (i + 1)]"
    proof (rule map_cong [OF refl])
      fix k assume "k \<in> set [0..<8 - (i + 1)]"
      then have "0 < 7 - k" "7 - k < 8" by auto
      then have "bit (push_bit 1 b) (7 - k) = bit b (7 - k - 1)" by (rule bit_shl1)
      then show "cell (bit (push_bit 1 b) (7 - k)) = cell (bit b (7 - Suc k))"
        by (simp del: push_bit_of_Suc_0 push_bit_eq_mult add: cell_def)
    qed
    define c where "c = (if b AND 0x80 = 0x80 then CHR ''*'' else CHR ''.'')"
    have c: "c = cell (bit b 7)"
      by (simp add: c_def cell_def top_bit_test)
    have le: "i + 1 \<le> 8" using True by simp
    have "bits_loop i b line = bits_loop (i + 1) (push_bit 1 b) (line @ [c])"
      using True by (subst bits_loop.simps) (simp add: c_def)
    also have "\<dots> = (line @ [c]) @
        map (\<lambda>k. cell (bit (push_bit 1 b) (7 - k))) [0..<8 - (i + 1)]"
      using "1.IH" [OF True le] unfolding c_def .
    finally show ?thesis unfolding sh n upt_shift c by (simp add: comp_def)
  qed
qed


lemma length_bits_loop: "length (bits_loop 0 b []) = 8"
  by (simp add: bits_loop_eq)

lemma nth_bits_loop: "k < 8 \<Longrightarrow> bits_loop 0 b [] ! k = cell (bit b (7 - k))"
  by (simp add: bits_loop_eq)

lemma set_bits_loop: "set (bits_loop 0 b []) \<subseteq> {CHR ''*'', CHR ''.''}"
  by (auto simp add: bits_loop_eq cell_def)


lemma nth_MakeLife105_row:
  "i < length data \<Longrightarrow> MakeLife105 x y data ! (4 + i) = bits_loop 0 (data ! i) []"
  by (simp add: MakeLife105_def header_def nth_append)


section \<open>Seven-bit payloads\<close>

lemma b7: "(b < 128) = (\<not> bit b 7)" for b :: byte
proof -
  have lt: "unat b < 256" using unsigned_less [of b, where ?'a = nat] by simp
  have "bit b 7 = bit (unat b) 7" by (simp add: bit_unsigned_iff)
  also have "\<dots> = odd (unat b div 128)" by (simp add: bit_iff_odd)
  also have "\<dots> = (128 \<le> unat b)"
  proof -
    have "unat b div 128 < 2" using lt by simp
    then have "unat b div 128 = 0 \<or> unat b div 128 = 1" by linarith
    then show ?thesis by auto
  qed
  finally have "bit b 7 = (128 \<le> unat b)" .
  moreover have "(b < 128) = (unat b < 128)" by (simp add: word_less_nat_alt)
  ultimately show ?thesis by auto
qed

lemma xor_loop_bit7:
  "\<forall>d\<in>set data. \<not> bit d 7 \<Longrightarrow> \<forall>b\<in>set bs. \<not> bit b 7 \<Longrightarrow>
     \<forall>d\<in>set (xor_loop data idx bs). \<not> bit d 7"
proof (induction bs arbitrary: data idx)
  case Nil
  then show ?case by simp
next
  case (Cons b bs)
  have bs: "\<forall>b\<in>set bs. \<not> bit b 7" using Cons.prems(2) by simp
  have upd: "\<forall>d\<in>set (data[idx := data ! idx XOR b]). \<not> bit d 7"
  proof (cases "idx < length data")
    case False
    then have "data[idx := data ! idx XOR b] = data" by (simp add: not_less list_update_beyond)
    then show ?thesis using Cons.prems(1) by simp
  next
    case True
    then have "\<not> bit (data ! idx XOR b) 7"
      using Cons.prems by (simp add: bit_xor_iff)
    then show ?thesis
      using Cons.prems(1) set_update_subset_insert [of data idx "data ! idx XOR b"] by auto
  qed
  show ?case
    using Cons.IH [OF Cons.prems(1) bs, of idx] Cons.IH [OF upd bs, of "(idx + 1) mod 8"]
    by (simp del: One_nat_def)
qed



section \<open>Rounding to \<^verbatim>\<open>float64\<close>\<close>

text \<open>
  Rounding to the nearest integer is monotone and fixes the integers; the exponent of a
  positive magnitude brackets it between two powers of two; hence rounding a magnitude is
  monotone, and exact on the integers up to \<open>2^53\<close>.
\<close>

lemma round_even_of_int: "round_even (of_int z) = z"
  by (simp add: round_even_def)

lemma round_even_bounds: "\<lfloor>x\<rfloor> \<le> round_even x" "round_even x \<le> \<lfloor>x\<rfloor> + 1"
  by (simp_all add: round_even_def Let_def)

lemma round_even_mono:
  assumes "x \<le> y"
  shows "round_even x \<le> round_even y"
proof (cases "\<lfloor>x\<rfloor> = \<lfloor>y\<rfloor>")
  case True
  then have "x - of_int \<lfloor>x\<rfloor> \<le> y - of_int \<lfloor>y\<rfloor>" using assms by simp
  then show ?thesis using True by (auto simp add: round_even_def Let_def)
next
  case False
  then have "\<lfloor>x\<rfloor> + 1 \<le> \<lfloor>y\<rfloor>" using floor_mono [OF assms] by linarith
  then show ?thesis using round_even_bounds(2) [of x] round_even_bounds(1) [of y] by linarith
qed

lemma floor_log2_bounds:
  assumes "0 < m"
  shows "2 powi floor_log2 m \<le> m" and "m < 2 powi (floor_log2 m + 1)"
proof -
  have "2 powi floor_log2 m \<le> m \<and> m < 2 powi (floor_log2 m + 1)"
  proof (cases "1 \<le> m")
    case True
    define n where "n = \<lfloor>m\<rfloor>"
    have n: "0 < n" using True by (simp add: n_def)
    have b: "1 \<le> bitlen n" using n bitlen_eq_zero_iff [of n] bitlen_nonneg [of n] by linarith
    have e: "floor_log2 m = bitlen n - 1" using True by (simp add: floor_log2_def n_def)
    have lo: "(2::int) ^ nat (bitlen n - 1) \<le> n" and hi: "n < 2 ^ nat (bitlen n)"
      using bitlen_bounds [OF n] by simp_all
    have "(2::rat) powi (bitlen n - 1) = of_int (2 ^ nat (bitlen n - 1))"
      using b by (simp add: power_int_def)
    also have "\<dots> \<le> of_int n" using lo by (simp only: of_int_le_iff)
    also have "\<dots> \<le> m" by (simp add: n_def)
    finally have 1: "2 powi floor_log2 m \<le> m" by (simp add: e)
    have "n + 1 \<le> 2 ^ nat (bitlen n)" using hi by simp
    then have "(of_int (n + 1) :: rat) \<le> of_int (2 ^ nat (bitlen n))" by (simp only: of_int_le_iff)
    moreover have "m < of_int (n + 1)" unfolding n_def using floor_correct [of m] by blast
    moreover have "(2::rat) powi (bitlen n - 1 + 1) = of_int (2 ^ nat (bitlen n))"
      using b by (simp add: power_int_def)
    ultimately have "m < 2 powi (floor_log2 m + 1)" by (simp add: e)
    with 1 show ?thesis by simp
  next
    case False
    define k where "k = \<lceil>1 / m\<rceil> - 1"
    have x1: "1 < 1 / m" using False assms by simp
    then have k: "0 < k" by (simp add: k_def less_ceiling_iff)
    have b: "1 \<le> bitlen k" using k bitlen_eq_zero_iff [of k] bitlen_nonneg [of k] by linarith
    have e: "floor_log2 m = - bitlen k" using False by (simp add: floor_log2_def k_def)
    have lo: "(2::int) ^ nat (bitlen k - 1) \<le> k" and hi: "k < 2 ^ nat (bitlen k)"
      using bitlen_bounds [OF k] by simp_all
    have "1 / m \<le> of_int (k + 1)" by (simp add: k_def)
    also have "\<dots> \<le> of_int (2 ^ nat (bitlen k))" using hi by (simp only: of_int_le_iff)
    finally have "1 / m \<le> 2 ^ nat (bitlen k)" by simp
    then have "1 \<le> 2 ^ nat (bitlen k) * m" using assms by (simp add: field_simps)
    then have 1: "2 powi floor_log2 m \<le> m"
      using b by (simp add: e power_int_def field_simps)
    have "(of_int (2 ^ nat (bitlen k - 1)) :: rat) \<le> of_int k" using lo by (simp only: of_int_le_iff)
    also have "of_int k < 1 / m" unfolding k_def using ceiling_correct [of "1 / m"] by simp
    finally have "2 ^ nat (bitlen k - 1) < 1 / m" by simp
    then have "m < 1 / 2 ^ nat (bitlen k - 1)" using assms by (simp add: field_simps)
    moreover have "(2::rat) powi (floor_log2 m + 1) = 1 / 2 ^ nat (bitlen k - 1)"
    proof -
      have "floor_log2 m + 1 = - (bitlen k - 1)" by (simp add: e)
      then have "(2::rat) powi (floor_log2 m + 1) = inverse (2 powi (bitlen k - 1))"
        by (simp only: power_int_minus)
      also have "\<dots> = 1 / 2 ^ nat (bitlen k - 1)"
        using b by (simp add: power_int_def divide_inverse)
      finally show ?thesis .
    qed
    ultimately have "m < 2 powi (floor_log2 m + 1)"
      by (simp only:)
    with 1 show ?thesis by simp
  qed
  then show "2 powi floor_log2 m \<le> m" and "m < 2 powi (floor_log2 m + 1)" by simp_all
qed



lemma pow2_less_imp: "(2::rat) powi a < 2 powi b \<Longrightarrow> a < b"
  using power_int_increasing [of b a "2::rat"] by (cases "a < b") auto

lemma floor_log2_mono:
  assumes "0 < x" "x \<le> y"
  shows "floor_log2 x \<le> floor_log2 y"
proof -
  have "2 powi floor_log2 x \<le> x" using floor_log2_bounds(1) [OF assms(1)] .
  also have "x \<le> y" by fact
  also have "y < 2 powi (floor_log2 y + 1)" using floor_log2_bounds(2) [of y] assms by simp
  finally show ?thesis using pow2_less_imp by fastforce
qed

lemma ulp_expo: "ulp m = 2 powi (expo m - 52)"
  by (simp add: ulp_def)

lemma ulp_pos: "0 < ulp m"
  by (simp add: ulp_def)

lemma round_mag_nonneg: "0 \<le> m \<Longrightarrow> 0 \<le> round_mag m"
proof -
  assume m: "0 \<le> m"
  then have "0 \<le> m / ulp m" using ulp_pos [of m] by simp
  then have "0 \<le> \<lfloor>m / ulp m\<rfloor>" by simp
  then have "0 \<le> round_even (m / ulp m)" using round_even_bounds(1) [of "m / ulp m"] by linarith
  then show ?thesis using ulp_pos [of m] by (simp add: round_mag_def)
qed

lemma round_mag_upper:
  assumes "0 < x"
  shows "round_mag x \<le> 2 powi (expo x + 1)"
proof -
  have "x < 2 powi (floor_log2 x + 1)" using floor_log2_bounds(2) [OF assms] .
  also have "\<dots> \<le> 2 powi (expo x + 1)"
    by (rule power_int_increasing) (simp_all add: expo_def)
  finally have "x < 2 powi (expo x + 1)" .
  moreover have "(2::rat) powi (expo x + 1) = 2 ^ 53 * ulp x"
  proof -
    have "expo x + 1 = 53 + (expo x - 52)" by simp
    then have "(2::rat) powi (expo x + 1) = 2 powi (53 + (expo x - 52))" by (simp only:)
    also have "\<dots> = 2 powi 53 * 2 powi (expo x - 52)" by (rule power_int_add) simp
    finally show ?thesis by (simp add: ulp_expo)
  qed
  ultimately have "x / ulp x \<le> of_int (2 ^ 53)" using ulp_pos [of x] by (simp add: field_simps)
  then have "round_even (x / ulp x) \<le> 2 ^ 53"
    using round_even_mono [of "x / ulp x" "of_int (2 ^ 53)"] by (simp only: round_even_of_int)
  then have "(of_int (round_even (x / ulp x)) :: rat) \<le> of_int (2 ^ 53)" by (simp only: of_int_le_iff)
  then have "of_int (round_even (x / ulp x)) * ulp x \<le> 2 ^ 53 * ulp x"
    using ulp_pos [of x] by simp
  then show ?thesis using assms \<open>(2::rat) powi (expo x + 1) = 2 ^ 53 * ulp x\<close>
    by (simp add: round_mag_def)
qed

lemma round_mag_lower:
  assumes "0 < y" "- 1022 \<le> floor_log2 y"
  shows "2 powi (expo y) \<le> round_mag y"
proof -
  have e: "expo y = floor_log2 y" using assms(2) by (simp add: expo_def)
  have "2 powi (expo y) \<le> y" using floor_log2_bounds(1) [OF assms(1)] by (simp add: e)
  moreover have p: "(2::rat) powi (expo y) = 2 ^ 52 * ulp y"
  proof -
    have "expo y = 52 + (expo y - 52)" by simp
    then have "(2::rat) powi (expo y) = 2 powi (52 + (expo y - 52))" by (simp only:)
    also have "\<dots> = 2 powi 52 * 2 powi (expo y - 52)" by (rule power_int_add) simp
    finally show ?thesis by (simp add: ulp_expo)
  qed
  ultimately have "of_int (2 ^ 52) \<le> y / ulp y" using ulp_pos [of y] by (simp add: field_simps)
  then have "2 ^ 52 \<le> round_even (y / ulp y)"
    using round_even_mono [of "of_int (2 ^ 52)" "y / ulp y"] by (simp only: round_even_of_int)
  then have "(of_int (2 ^ 52) :: rat) \<le> of_int (round_even (y / ulp y))" by (simp only: of_int_le_iff)
  then have "2 ^ 52 * ulp y \<le> of_int (round_even (y / ulp y)) * ulp y"
    using ulp_pos [of y] by simp
  then show ?thesis using assms p by (simp add: round_mag_def)
qed

lemma round_mag_mono:
  assumes "0 \<le> x" "x \<le> y"
  shows "round_mag x \<le> round_mag y"
proof (cases "x = 0")
  case True
  then show ?thesis using round_mag_nonneg [of y] assms by (simp add: round_mag_def)
next
  case False
  then have x: "0 < x" and y: "0 < y" using assms by simp_all
  have le: "expo x \<le> expo y" using floor_log2_mono [OF x assms(2)] by (simp add: expo_def)
  show ?thesis
  proof (cases "expo x = expo y")
    case True
    then have u: "ulp x = ulp y" by (simp add: ulp_expo)
    have "x / ulp y \<le> y / ulp y" using assms ulp_pos [of y] by (simp add: divide_right_mono)
    then have "round_even (x / ulp y) \<le> round_even (y / ulp y)" by (rule round_even_mono)
    then have "(of_int (round_even (x / ulp y)) :: rat) \<le> of_int (round_even (y / ulp y))"
      by (simp only: of_int_le_iff)
    then show ?thesis using x y u ulp_pos [of y] by (simp add: round_mag_def)
  next
    case False
    then have lt: "expo x + 1 \<le> expo y" using le by simp
    then have "- 1022 \<le> floor_log2 y" by (simp add: expo_def)
    then have "2 powi (expo y) \<le> round_mag y" using round_mag_lower [OF y] by simp
    moreover have "round_mag x \<le> 2 powi (expo x + 1)" by (rule round_mag_upper [OF x])
    moreover have "(2::rat) powi (expo x + 1) \<le> 2 powi (expo y)"
      using lt by (intro power_int_increasing) simp_all
    ultimately show ?thesis by linarith
  qed
qed

lemma round_mag_exact:
  assumes "m / ulp m = of_int z"
  shows "round_mag m = m"
proof -
  have "round_even (m / ulp m) = z" by (simp only: assms round_even_of_int)
  moreover have "of_int z * ulp m = m"
    using assms ulp_pos [of m] by (simp add: field_simps)
  ultimately show ?thesis by (simp add: round_mag_def)
qed

lemma round_mag_of_int:
  assumes "0 \<le> n" "n \<le> 2 ^ 53"
  shows "round_mag (of_int n) = of_int n"
proof (cases "n = 0")
  case True
  then show ?thesis by (simp add: round_mag_def)
next
  case False
  then have n: "0 < n" using assms by simp
  have b1: "1 \<le> bitlen n" using n bitlen_eq_zero_iff [of n] bitlen_nonneg [of n] by linarith
  have "(2::int) ^ nat (bitlen n - 1) \<le> n" using bitlen_bounds [OF n] by simp
  then have "(2::int) ^ nat (bitlen n - 1) \<le> 2 ^ 53" using assms by simp
  then have "nat (bitlen n - 1) \<le> 53" by (rule power_le_imp_le_exp [rotated]) simp
  then have b2: "bitlen n - 1 \<le> 53" by simp
  have e: "expo (of_int n) = bitlen n - 1"
    using n b1 by (simp add: expo_def floor_log2_def)
  show ?thesis
  proof (cases "bitlen n - 1 \<le> 52")
    case True
    define k where "k = nat (52 - (bitlen n - 1))"
    have "(2::rat) powi (bitlen n - 1 - 52) = inverse (2 powi (52 - (bitlen n - 1)))"
      using power_int_minus [of "2::rat" "52 - (bitlen n - 1)"] by simp
    also have "\<dots> = inverse (2 ^ k)" using True by (simp add: power_int_def k_def)
    finally have u: "ulp (of_int n) = inverse (2 ^ k)" by (simp add: ulp_expo e)
    have "(of_int n :: rat) / ulp (of_int n) = of_int (n * 2 ^ k)"
      by (simp add: u divide_inverse)
    then show ?thesis by (rule round_mag_exact)
  next
    case False
    then have b: "bitlen n - 1 = 53" using b2 by simp
    have "(2::int) ^ nat (bitlen n - 1) \<le> n" using bitlen_bounds [OF n] by simp
    then have "n = 2 ^ 53" using assms b by simp
    moreover have "ulp (of_int n) = 2" by (simp add: ulp_expo e b)
    ultimately have "(of_int n :: rat) / ulp (of_int n) = of_int (2 ^ 52)" by simp
    then show ?thesis by (rule round_mag_exact)
  qed
qed

text \<open>Evaluating the rounding on numerals.\<close>

lemma floor_rat_numeral [simp]:
  "\<lfloor>numeral a / numeral b :: rat\<rfloor> = numeral a div numeral b"
  "\<lfloor>1 / numeral b :: rat\<rfloor> = 1 div numeral b"
  using floor_divide_of_int_eq [of "numeral a" "numeral b", where ?'a = rat]
    floor_divide_of_int_eq [of 1 "numeral b", where ?'a = rat]
  by simp_all

lemma ceiling_rat_numeral [simp]:
  "\<lceil>numeral a / numeral b :: rat\<rceil> = - (- numeral a div numeral b)"
  "\<lceil>1 / numeral b :: rat\<rceil> = - (- 1 div numeral b)"
proof -
  have "\<lceil>numeral a / numeral b :: rat\<rceil> = - \<lfloor>of_int (- numeral a) / of_int (numeral b) :: rat\<rfloor>"
    by (simp add: ceiling_def)
  then show "\<lceil>numeral a / numeral b :: rat\<rceil> = - (- numeral a div numeral b)"
    by (simp only: floor_divide_of_int_eq)
  have "\<lceil>1 / numeral b :: rat\<rceil> = - \<lfloor>of_int (- 1) / of_int (numeral b) :: rat\<rfloor>"
    by (simp add: ceiling_def)
  then show "\<lceil>1 / numeral b :: rat\<rceil> = - (- 1 div numeral b)"
    by (simp only: floor_divide_of_int_eq)
qed

lemmas f64_eval = f64_of_int_def f64_round_def round_mag_def ulp_def expo_def floor_log2_def
  round_even_def compute_bitlen power_int_minus Let_def

lemma index_16:
  "index [b0,b1,b2,b3,b4,b5,b6,b7,b8,b9,b10,b11,b12,b13,b14,b15] 12 = Inr b12"
  "index [b0,b1,b2,b3,b4,b5,b6,b7,b8,b9,b10,b11,b12,b13,b14,b15] 13 = Inr b13"
  "index [b0,b1,b2,b3,b4,b5,b6,b7,b8,b9,b10,b11,b12,b13,b14,b15] 14 = Inr b14"
  "index [b0,b1,b2,b3,b4,b5,b6,b7,b8,b9,b10,b11,b12,b13,b14,b15] 15 = Inr b15"
  by (simp_all add: index_def)

section \<open>The scaling of \<^verbatim>\<open>IPToXY\<close>\<close>

lemma f64_of_int_exact:
  assumes "0 \<le> n" "n \<le> 2 ^ 53"
  shows "f64_of_int n = Float False (of_int n)"
proof -
  have "(of_int n :: rat) \<le> of_int (2 ^ 53)" using assms(2) by (simp only: of_int_le_iff)
  also have "\<dots> < 2 ^ 1024" by simp
  finally have "(of_int n :: rat) < 2 ^ 1024" .
  then show ?thesis
    using assms by (simp add: f64_of_int_def f64_round_def round_mag_of_int Let_def)
qed

lemma round_mag_one: "round_mag 1 = 1"
  using round_mag_of_int [of 1] by simp

lemma uint16_bounds:
  "0 \<le> push_bit 8 (uint hi) + uint lo" "push_bit 8 (uint hi) + uint lo \<le> 65535"
  for hi lo :: byte
proof -
  have "uint hi < 256" "uint lo < 256" "0 \<le> uint hi" "0 \<le> uint lo"
    using uint_bounded [of hi] uint_bounded [of lo] by simp_all
  then show "0 \<le> push_bit 8 (uint hi) + uint lo" "push_bit 8 (uint hi) + uint lo \<le> 65535"
    by (simp_all add: push_bit_eq_mult)
qed

lemma scaled_float:
  assumes "0 \<le> u" "u \<le> 65535" "0 < n" "n \<le> 2 ^ 53"
  shows "\<exists>r. f64_mul (f64_div (f64_of_int u) (f64_of_int 0xffff)) (f64_of_int n) = Float False r
           \<and> 0 \<le> r \<and> r \<le> of_int n"
proof -
  define q where "q = round_mag (of_int u / 65535)"
  have fu: "f64_of_int u = Float False (of_int u)"
    using assms by (intro f64_of_int_exact) simp_all
  have fc: "f64_of_int 0xffff = Float False 65535"
    using f64_of_int_exact [of 65535] by simp
  have fn: "f64_of_int n = Float False (of_int n)"
    using assms by (intro f64_of_int_exact) simp_all
  have "(of_int u :: rat) \<le> of_int 65535" using assms(2) by (simp only: of_int_le_iff)
  then have le1: "(of_int u :: rat) / 65535 \<le> 1" by simp
  have ge0: "0 \<le> (of_int u :: rat) / 65535" using assms(1) by simp
  have q1: "q \<le> 1" unfolding q_def using round_mag_mono [OF ge0 le1] by (simp add: round_mag_one)
  have q0: "0 \<le> q" unfolding q_def using ge0 by (rule round_mag_nonneg)
  have dv: "f64_div (f64_of_int u) (f64_of_int 0xffff) = Float False q"
    using q1 by (simp add: fu fc f64_round_def q_def Let_def)
  define r where "r = round_mag (q * of_int n)"
  have n0: "(0::rat) \<le> of_int n" using assms(3) by simp
  have qn: "q * of_int n \<le> of_int n" using mult_right_mono [OF q1 n0] by simp
  have "r \<le> round_mag (of_int n)"
    unfolding r_def using q0 n0 qn by (intro round_mag_mono) simp_all
  then have rn: "r \<le> of_int n" using assms by (simp add: round_mag_of_int)
  have r0: "0 \<le> r" unfolding r_def using q0 n0 by (intro round_mag_nonneg) simp
  have "(of_int n :: rat) \<le> of_int (2 ^ 53)" using assms(4) by (simp only: of_int_le_iff)
  also have "\<dots> < 2 ^ 1024" by simp
  finally have "r < 2 ^ 1024" using rn by simp
  then have "f64_mul (Float False q) (Float False (of_int n)) = Float False r"
    by (simp add: f64_round_def r_def Let_def)
  then show ?thesis using dv fn r0 rn by auto
qed

lemma wrap64_id: "- (2 ^ 63) \<le> n \<Longrightarrow> n < 2 ^ 63 \<Longrightarrow> wrap64 n = n"
  by (simp add: wrap64_def)

lemma go_quot_pos: "0 < n \<Longrightarrow> go_quot n 2 = n div 2"
  by (simp add: go_quot_def)

lemma scale_bounds:
  assumes "0 < n" "n \<le> 2 ^ 53"
  shows "- (n div 2) \<le> scale conv hi lo n" and "scale conv hi lo n \<le> n - n div 2"
proof -
  obtain r where f: "f64_mul (f64_div (f64_of_int (push_bit 8 (uint hi) + uint lo)) (f64_of_int 0xffff))
      (f64_of_int n) = Float False r" and r: "0 \<le> r" "r \<le> of_int n"
    using scaled_float [OF uint16_bounds assms] by blast
  define v where "v = \<lfloor>r\<rfloor>"
  have fl: "0 \<le> v" "v \<le> n" using r by (simp_all add: v_def floor_le_iff le_floor_iff)
  have n53: "n \<le> 9007199254740992" using assms(2) by simp
  have cv: "f64_to_int64 conv (Float False r) = v"
    unfolding f64_to_int64_def float64.case Let_def v_def [symmetric] using fl n53 by simp
  have h: "0 \<le> n div 2" "n div 2 \<le> n" using assms(1) by simp_all
  have "scale conv hi lo n = wrap64 (v - n div 2)"
    using assms(1) by (simp only: scale_def f cv go_quot_pos)
  also have "\<dots> = v - n div 2"
    using fl h n53 by (intro wrap64_id) simp_all
  finally have "scale conv hi lo n = v - n div 2" .
  then show "- (n div 2) \<le> scale conv hi lo n" and "scale conv hi lo n \<le> n - n div 2"
    using fl by simp_all
qed

section \<open>The address parser returns 16 bytes\<close>

lemma length_parseIPv4Fields:
  "parseIPv4Fields s v d fs = Some r \<Longrightarrow> length fs \<le> 3 \<Longrightarrow> length r = 4"
proof (induction s arbitrary: v d fs)
  case Nil
  then show ?case by (auto split: if_splits)
next
  case (Cons c cs)
  show ?case
  proof (cases "digit_val c")
    case (Some k)
    then have "parseIPv4Fields cs (v * 10 + k) (d + 1) fs = Some r"
      using Cons.prems(1) by (simp split: if_splits)
    then show ?thesis using Cons.prems(2) by (rule Cons.IH)
  next
    case None
    then have "parseIPv4Fields cs 0 0 (fs @ [of_nat v]) = Some r" and "length fs \<noteq> 3"
      using Cons.prems(1) by (simp_all split: if_splits)
    then show ?thesis using Cons.prems(2) by (intro Cons.IH [of 0 0 "fs @ [of_nat v]"]) simp_all
  qed
qed

lemma length_parseIPv4: "parseIPv4 s = Some ip \<Longrightarrow> length ip = 16"
  by (auto simp add: parseIPv4_def v4InV6Prefix_def dest: length_parseIPv4Fields)

lemma length_ipv6_loop:
  "ipv6_loop s ip e = Some (ip', e', rest) \<Longrightarrow> even (length ip) \<Longrightarrow> length ip \<le> 16
     \<Longrightarrow> length ip' \<le> 16"
proof (induction s ip e rule: ipv6_loop.induct)
  case (1 s ip ellipsis)
  show ?case
  proof (cases "16 \<le> length ip")
    case True
    then show ?thesis using "1.prems" by (simp add: ipv6_loop.simps [of s ip ellipsis])
  next
    case False
    then have lt: "length ip + 2 \<le> 16" using "1.prems"(2,3) by presburger
    from False "1.prems"(1) obtain acc off rst where
      hg: "hex_group s 0 0 = Some (acc, off, rst)"
      by (simp add: ipv6_loop.simps [of s ip ellipsis] split: option.splits prod.splits)
    define ip2 where "ip2 = ip @ [of_nat (acc div 256), of_nat acc :: byte]"
    have len2: "even (length ip2)" "length ip2 \<le> 16"
      using "1.prems"(2) lt by (simp_all add: ip2_def)
    note unf = "1.prems"(1) [unfolded ipv6_loop.simps [of s ip ellipsis], simplified False hg, simplified]
    show ?thesis
    proof (cases "rst \<noteq> [] \<and> hd rst = CHR ''.''")
      case True
      then obtain fs where "parseIPv4Fields s 0 0 [] = Some fs" "ip' = ip @ fs"
        "length ip + 4 \<le> 16"
        using unf by (auto split: if_splits option.splits)
      then show ?thesis using length_parseIPv4Fields [of s 0 0 "[]" fs] by simp
    next
      case dot: False
      show ?thesis
      proof (cases "rst = []")
        case True
        then have "ip' = ip2" using unf dot by (auto simp add: ip2_def Let_def split: if_splits)
        then show ?thesis using len2 by simp
      next
        case ne: False
        show ?thesis
        proof (cases "hd (tl rst) = CHR '':''")
          case True
          show ?thesis
          proof (cases "tl (tl rst) = []")
            case True
            then have "ip' = ip2" using unf dot ne \<open>hd (tl rst) = CHR '':''\<close>
              by (auto simp add: ip2_def Let_def split: if_splits)
            then show ?thesis using len2 by simp
          next
            case False
            then have "ipv6_loop (tl (tl rst)) ip2 (Some (length ip2)) = Some (ip', e', rest)"
              and c: "off \<noteq> 0" "hd rst = CHR '':''" "length rst \<noteq> 1" "ellipsis = None"
              using unf dot ne \<open>hd (tl rst) = CHR '':''\<close>
              by (auto simp add: ip2_def Let_def split: if_splits)
            then show ?thesis
              using "1.IH"(1) [OF \<open>\<not> 16 \<le> length ip\<close> hg refl refl, of ip2] dot ne
                \<open>hd (tl rst) = CHR '':''\<close> False len2
              by (auto simp add: ip2_def)
          qed
        next
          case False
          then have "ipv6_loop (tl rst) ip2 ellipsis = Some (ip', e', rest)"
              and c: "off \<noteq> 0" "hd rst = CHR '':''" "length rst \<noteq> 1"
            using unf dot ne by (auto simp add: ip2_def Let_def split: if_splits)
          then show ?thesis
            using "1.IH"(2) [OF \<open>\<not> 16 \<le> length ip\<close> hg refl refl, of ip2] dot ne False len2
            by (auto simp add: ip2_def)
        qed
      qed
    qed
  qed
qed

lemma length_parseIPv6: "parseIPv6 s = Some ip \<Longrightarrow> length ip = 16"
proof -
  assume a: "parseIPv6 s = Some ip"
  show ?thesis
  proof (cases "take 2 s = ''::'' \<and> drop 2 s = []")
    case True
    then show ?thesis using a by (auto simp add: parseIPv6_def split: if_splits)
  next
    case False
    define start where "start = (if take 2 s = ''::'' then ipv6_loop (drop 2 s) [] (Some 0)
                 else ipv6_loop s [] None)"
    from a False obtain bs e rest where st: "start = Some (bs, e, rest)"
      unfolding parseIPv6_def start_def [symmetric]
      by (auto split: if_splits option.splits)
    have le: "length bs \<le> 16"
      using st length_ipv6_loop [of _ "[]" _ bs e rest]
      by (auto simp add: start_def split: if_splits)
    have "ip = (if length bs < 16 then take (the e) bs @ replicate (16 - length bs) 0 @ drop (the e) bs
                else bs)"
      using a False unfolding parseIPv6_def start_def [symmetric] st
      by (auto split: if_splits option.splits)
    then show ?thesis using le by auto
  qed
qed

lemma length_ParseIP_scan: "ParseIP_scan s cs = Some ip \<Longrightarrow> length ip = 16"
  by (induction cs) (auto split: if_splits dest: length_parseIPv4 length_parseIPv6)

lemma length_ParseIP: "ParseIP s = Some ip \<Longrightarrow> length ip = 16"
  unfolding ParseIP_def by (rule length_ParseIP_scan)

lemma IPToXY_Some:
  assumes "ParseIP addr = Some ip"
  shows "IPToXY conv addr w h =
     Inr (scale conv (ip ! 12) (ip ! 13) w, scale conv (ip ! 14) (ip ! 15) h)"
  using length_ParseIP [OF assms] by (simp add: IPToXY_def assms index_def and_then_def)

lemma IPToXY_None: "ParseIP addr = None \<Longrightarrow> IPToXY conv addr w h = Inr (0, 0)"
  by (simp add: IPToXY_def)


section \<open>Some addresses and their coordinates\<close>

lemma ParseIP_255: "ParseIP ''255.255.0.0'' = Some [0,0,0,0,0,0,0,0,0,0,255,255,255,255,0,0]"
  by code_simp

lemma ParseIP_254: "ParseIP ''255.254.0.0'' = Some [0,0,0,0,0,0,0,0,0,0,255,255,255,254,0,0]"
  by code_simp

lemma ParseIP_10: "ParseIP ''10.0.0.1'' = Some [0,0,0,0,0,0,0,0,0,0,255,255,10,0,0,1]"
  by code_simp

lemma replicate_8: "replicate 8 x = [x, x, x, x, x, x, x, x]"
  by (simp add: numeral_eq_Suc)

lemma ParseIP_v6: "ParseIP ''2001:db8::a00:1'' = Some [0x20,1,0x0d,0xb8,0,0,0,0,0,0,0,0,10,0,0,1]"
  by (simp add: ParseIP_def parseIPv6_def ipv6_loop.simps hex_val_def Let_def replicate_8)

lemma scale_examples:
  "scale conv 255 255 100 = 50" "scale conv 0 0 100 = - 50"
  "scale conv 255 254 255 = 127" "scale conv 0 0 255 = - 127"
  "scale conv 10 0 100 = - 47" "scale conv 0 1 100 = - 50"
  by (simp_all add: scale_def f64_eval f64_to_int64_def wrap64_def go_quot_def)


section \<open>The delay\<close>

text \<open>
  When the gap in microseconds is at most \<open>2^53\<close> its conversion to \<^verbatim>\<open>float64\<close> and the
  product with 1 are exact, and the quotient is the exact quotient rounded once; when
  the rounded quotient is at most \<open>2^53\<close> neither the conversion to \<^verbatim>\<open>int64\<close> nor the
  product with 1000 leaves the range.
\<close>

lemma f64_of_int_mul_one:
  assumes "0 \<le> n" "n \<le> 2 ^ 53"
  shows "f64_mul (f64_of_int n) (Float False 1) = Float False (of_int n)"
proof -
  have "(of_int n :: rat) \<le> of_int (2 ^ 53)" using assms(2) by (simp only: of_int_le_iff)
  also have "\<dots> < 2 ^ 1024" by simp
  finally have "(of_int n :: rat) < 2 ^ 1024" .
  then show ?thesis
    using assms by (simp add: f64_of_int_exact f64_round_def round_mag_of_int Let_def)
qed

lemma delay_quotient_pos:
  assumes "0 \<le> Microseconds (Sub t2 t1)" "Microseconds (Sub t2 t1) \<le> 2 ^ 53" "m \<noteq> 0"
  shows "delay_quotient t1 t2 (Float s m) = f64_round s (of_int (Microseconds (Sub t2 t1)) / m)"
  using assms by (simp add: delay_quotient_def f64_of_int_mul_one)

lemma f64_round_small:
  assumes "round_mag x \<le> 2 ^ 53"
  shows "f64_round s x = Float s (round_mag x)"
proof -
  have "round_mag x < 2 ^ 1024" using assms by (rule le_less_trans) simp
  then show ?thesis by (simp add: f64_round_def Let_def)
qed

lemma to_int64_small:
  assumes "0 \<le> q" "q \<le> 2 ^ 53"
  shows "f64_to_int64 conv (Float s q) = (if s then - \<lfloor>q\<rfloor> else \<lfloor>q\<rfloor>)"
proof -
  define v where "v = \<lfloor>q\<rfloor>"
  have "q \<le> of_int (2 ^ 53)" using assms(2) by simp
  then have "v \<le> 2 ^ 53" unfolding v_def by (simp only: floor_le_iff)
  then have v: "0 \<le> v" "v \<le> 9007199254740992" using assms(1) by (simp_all add: v_def)
  show ?thesis
    unfolding f64_to_int64_def float64.case Let_def v_def [symmetric] using v by auto
qed

lemma delay_small:
  assumes "0 \<le> Microseconds (Sub t2 t1)" "Microseconds (Sub t2 t1) \<le> 2 ^ 53" "m \<noteq> 0"
    and "0 \<le> m" "round_mag (of_int (Microseconds (Sub t2 t1)) / m) \<le> 2 ^ 53"
  shows "delay conv t1 t2 (Float s m) =
     (if s then - 1000 * \<lfloor>round_mag (of_int (Microseconds (Sub t2 t1)) / m)\<rfloor>
      else 1000 * \<lfloor>round_mag (of_int (Microseconds (Sub t2 t1)) / m)\<rfloor>)"
proof -
  define q where "q = round_mag (of_int (Microseconds (Sub t2 t1)) / m)"
  define v where "v = \<lfloor>q\<rfloor>"
  have q0: "0 \<le> q" unfolding q_def using assms(1,4) by (intro round_mag_nonneg) simp
  have q1: "q \<le> 2 ^ 53" using assms(5) by (simp add: q_def)
  have "q \<le> of_int (2 ^ 53)" using q1 by simp
  then have "v \<le> 2 ^ 53" unfolding v_def by (simp only: floor_le_iff)
  then have v: "0 \<le> v" "v \<le> 9007199254740992" using q0 by (simp_all add: v_def)
  have "delay conv t1 t2 (Float s m) = wrap64 ((if s then - v else v) * 1000)"
    unfolding delay_def delay_quotient_pos [OF assms(1,2,3)] f64_round_small [OF assms(5)]
      q_def [symmetric] to_int64_small [OF q0 q1] v_def ..
  also have "\<dots> = (if s then - v else v) * 1000"
    using v by (intro wrap64_id) auto
  finally show ?thesis by (simp add: q_def v_def)
qed

lemma delay_speed_one:
  assumes "0 \<le> Sub t2 t1" "Sub t2 t1 div 1000 \<le> 2 ^ 53"
  shows "delay conv t1 t2 (Float False 1) = 1000 * (Sub t2 t1 div 1000)"
proof -
  define us where "us = Sub t2 t1 div 1000"
  have us: "Microseconds (Sub t2 t1) = us" using assms(1) by (simp add: Microseconds_def go_quot_def us_def)
  have u0: "0 \<le> us" using assms(1) by (simp add: us_def pos_imp_zdiv_nonneg_iff)
  have u1: "us \<le> 2 ^ 53" using assms(2) by (simp add: us_def)
  have r: "round_mag (of_int us) = of_int us" using u0 u1 by (simp add: round_mag_of_int)
  have "(of_int us :: rat) \<le> of_int (2 ^ 53)" using u1 by (simp only: of_int_le_iff)
  then have "round_mag (of_int (Microseconds (Sub t2 t1)) / 1) \<le> 2 ^ 53" by (simp add: us r)
  from delay_small [OF _ _ _ _ this, where s = False and conv = conv] u0 u1 show ?thesis
    by (simp add: us r flip: us_def)
qed

lemma delay_speed_two:
  assumes "Sub t2 t1 = 2000 * k" "0 \<le> k" "k \<le> 2 ^ 52"
  shows "delay conv t1 t2 (Float False 2) = 1000 * k"
proof -
  have us: "Microseconds (Sub t2 t1) = 2 * k" using assms(1,2) by (simp add: Microseconds_def go_quot_def)
  have k53: "k \<le> 2 ^ 53" using assms(3) by simp
  have r: "round_mag (of_int k) = of_int k" using assms(2) k53 by (rule round_mag_of_int)
  have "(of_int k :: rat) \<le> of_int (2 ^ 52)" using assms(3) by (simp only: of_int_le_iff)
  then have "round_mag (of_int (Microseconds (Sub t2 t1)) / 2) \<le> 2 ^ 53" by (simp add: us r)
  from delay_small [OF _ _ _ _ this, where s = False and conv = conv] assms(2,3) show ?thesis
    by (simp add: us r)
qed

lemma delay_negative_speed:
  assumes "0 \<le> Microseconds (Sub t2 t1)" "Microseconds (Sub t2 t1) \<le> 2 ^ 53" "0 < m"
    and "of_int (Microseconds (Sub t2 t1)) \<le> 2 ^ 53 * m"
  shows "delay conv t1 t2 (Float True m) =
      - 1000 * \<lfloor>round_mag (of_int (Microseconds (Sub t2 t1)) / m)\<rfloor>"
    and "delay conv t1 t2 (Float True m) \<le> 0"
proof -
  define us where "us = Microseconds (Sub t2 t1)"
  have le: "(of_int us :: rat) / m \<le> of_int (2 ^ 53)"
    using assms(3,4) by (simp add: us_def field_simps)
  have ge: "0 \<le> (of_int us :: rat) / m" using assms(1,3) by (simp add: us_def)
  have "round_mag (of_int us / m) \<le> round_mag (of_int (2 ^ 53))"
    using ge le by (rule round_mag_mono)
  also have "\<dots> = of_int (2 ^ 53)" by (rule round_mag_of_int) simp_all
  finally have q: "round_mag (of_int (Microseconds (Sub t2 t1)) / m) \<le> 2 ^ 53" by (simp add: us_def)
  from delay_small [OF assms(1,2) _ _ q, where s = True and conv = conv] assms(3)
  show 1: "delay conv t1 t2 (Float True m) =
      - 1000 * \<lfloor>round_mag (of_int (Microseconds (Sub t2 t1)) / m)\<rfloor>" by simp
  have "0 \<le> round_mag (of_int us / m)" using ge by (rule round_mag_nonneg)
  then have "0 \<le> \<lfloor>round_mag (of_int (Microseconds (Sub t2 t1)) / m)\<rfloor>" by (simp add: us_def)
  then show "delay conv t1 t2 (Float True m) \<le> 0" unfolding 1 by simp
qed

lemma delay_speed_zero:
  "delay_quotient t1 t2 (Float s 0) = NaN \<or> (\<exists>b. delay_quotient t1 t2 (Float s 0) = Inf b)"
  "delay conv t1 t2 (Float s 0) = wrap64 (wrap64 (conv (delay_quotient t1 t2 (Float s 0))) * 1000)"
  "delay conv_amd64 t1 t2 (Float s 0) = 0"
proof -
  show 1: "delay_quotient t1 t2 (Float s 0) = NaN \<or> (\<exists>b. delay_quotient t1 t2 (Float s 0) = Inf b)"
    unfolding delay_quotient_def
    by (cases "f64_mul (f64_of_int (Microseconds (Sub t2 t1))) (Float False 1)") auto
  then show 2: "delay conv t1 t2 (Float s 0) = wrap64 (wrap64 (conv (delay_quotient t1 t2 (Float s 0))) * 1000)"
    for conv
    by (auto simp add: delay_def f64_to_int64_def)
  show "delay conv_amd64 t1 t2 (Float s 0) = 0"
    unfolding 2 by (simp add: conv_amd64_def wrap64_def)
qed

section \<open>The printer of integers writes the decimal numeral\<close>

lemma digit_chars:
  "digit_char 0 = CHR ''0''" "digit_char 1 = CHR ''1''" "digit_char 2 = CHR ''2''"
  "digit_char 3 = CHR ''3''" "digit_char 4 = CHR ''4''" "digit_char 5 = CHR ''5''"
  "digit_char 6 = CHR ''6''" "digit_char 7 = CHR ''7''" "digit_char 8 = CHR ''8''"
  "digit_char 9 = CHR ''9''" "digit_char (Suc 0) = CHR ''1''"
  by code_simp+

lemma digit_of_digit_char: "d < 10 \<Longrightarrow> digit_of (digit_char d) = Some d"
proof -
  assume "d < 10"
  then have "d = 0 \<or> d = 1 \<or> d = 2 \<or> d = 3 \<or> d = 4 \<or> d = 5 \<or> d = 6 \<or> d = 7 \<or> d = 8 \<or> d = 9"
    by arith
  then show ?thesis by (auto simp add: digit_of_def digit_chars)
qed

lemma numeral_value_append:
  "numeral_value (xs @ ys) acc =
     (case numeral_value xs acc of None \<Rightarrow> None | Some v \<Rightarrow> numeral_value ys v)"
  by (induction xs arbitrary: acc) (auto split: option.splits)

lemma numeral_value_decimal: "numeral_value (decimal n) 0 = Some n"
proof (induction n rule: decimal.induct)
  case (1 n)
  show ?case
  proof (cases "n < 10")
    case True
    then show ?thesis by (subst decimal.simps) (simp add: digit_of_digit_char)
  next
    case False
    then have "numeral_value (decimal (n div 10)) 0 = Some (n div 10)" by (rule "1.IH")
    then show ?thesis using False
      by (subst decimal.simps) (simp add: numeral_value_append digit_of_digit_char)
  qed
qed

lemma decimal_nonempty: "decimal n \<noteq> []"
  by (subst decimal.simps) simp

lemma digit_char_zero: "d < 10 \<Longrightarrow> (digit_char d = CHR ''0'') = (d = 0)"
  using digit_of_digit_char [of d] by (auto simp add: digit_of_def digit_chars)

lemma hd_decimal: "hd (decimal n) = CHR ''0'' \<Longrightarrow> n = 0"
proof (induction n rule: decimal.induct)
  case (1 n)
  show ?case
  proof (cases "n < 10")
    case True
    then show ?thesis using "1.prems" by (subst (asm) decimal.simps) (simp add: digit_char_zero)
  next
    case False
    then have "hd (decimal (n div 10)) = CHR ''0''"
      using "1.prems" decimal_nonempty [of "n div 10"] by (subst (asm) decimal.simps) simp
    then have "n div 10 = 0" using False by (intro "1.IH")
    then show ?thesis using False by simp
  qed
qed

lemma decimal_zero: "decimal 0 = ''0''"
  by (subst decimal.simps) (simp add: digit_chars)

lemma read_nat_decimal: "read_nat (decimal n) = Some n"
proof (cases "hd (decimal n) = CHR ''0''")
  case True
  then have "n = 0" by (rule hd_decimal)
  then show ?thesis by (simp add: read_nat_def decimal_zero digit_of_def)
next
  case False
  then show ?thesis by (simp add: read_nat_def decimal_nonempty numeral_value_decimal)
qed

lemma hd_decimal_not_minus: "hd (decimal n) \<noteq> CHR ''-''"
proof
  assume a: "hd (decimal n) = CHR ''-''"
  have "numeral_value (decimal n) 0 = Some n" by (rule numeral_value_decimal)
  moreover have "decimal n = hd (decimal n) # tl (decimal n)" using decimal_nonempty by simp
  ultimately have "numeral_value (CHR ''-'' # tl (decimal n)) 0 = Some n" using a by metis
  then show False by (simp add: digit_of_def)
qed

lemma read_decimal_itoa: "read_decimal (itoa n) = Some n"
proof (cases "n < 0")
  case True
  then show ?thesis by (simp add: itoa_def read_decimal_def read_nat_decimal)
next
  case False
  obtain c cs where d: "decimal (nat n) = c # cs" using decimal_nonempty [of "nat n"] by (cases "decimal (nat n)") auto
  then have "c \<noteq> CHR ''-''" using hd_decimal_not_minus [of "nat n"] by simp
  then show ?thesis using False read_nat_decimal [of "nat n"] d
    by (simp add: itoa_def read_decimal_def)
qed

lemma digit_of_bound: "digit_of c = Some d \<Longrightarrow> d < 10 \<and> digit_char d = c"
  by (auto simp add: digit_of_def digit_chars split: if_splits)

lemma numeral_value_ge: "numeral_value cs acc = Some v \<Longrightarrow> acc \<le> v"
proof (induction cs arbitrary: acc)
  case Nil
  then show ?case by simp
next
  case (Cons c cs)
  then obtain d where "numeral_value cs (10 * acc + d) = Some v"
    by (auto split: option.splits)
  then have "10 * acc + d \<le> v" by (rule Cons.IH)
  then show ?case by simp
qed

lemma numeral_value_pos:
  assumes "xs \<noteq> []" "hd xs \<noteq> CHR ''0''" "numeral_value xs 0 = Some u"
  shows "0 < u"
proof -
  obtain c cs where xs: "xs = c # cs" using assms(1) by (cases xs) auto
  then obtain d where d: "digit_of c = Some d" and v: "numeral_value cs d = Some u"
    using assms(3) by (auto split: option.splits)
  have "d \<noteq> 0" using d assms(2) xs by (auto simp add: digit_of_def split: if_splits)
  then show ?thesis using numeral_value_ge [OF v] by simp
qed

lemma decimal_numeral_value:
  "xs \<noteq> [] \<Longrightarrow> (hd xs = CHR ''0'' \<Longrightarrow> tl xs = []) \<Longrightarrow> numeral_value xs 0 = Some v
     \<Longrightarrow> decimal v = xs"
proof (induction xs arbitrary: v rule: rev_induct)
  case Nil
  then show ?case by simp
next
  case (snoc c ys)
  from snoc.prems(3) obtain u d where u: "numeral_value ys 0 = Some u"
    and d: "digit_of c = Some d" and v: "v = 10 * u + d"
    by (auto simp add: numeral_value_append split: option.splits)
  have d10: "d < 10" and dc: "digit_char d = c" using digit_of_bound [OF d] by simp_all
  show ?case
  proof (cases "ys = []")
    case True
    then have "v = d" using u v by simp
    then show ?thesis using True d10 dc by (subst decimal.simps) simp
  next
    case False
    then have hd: "hd ys \<noteq> CHR ''0''" using snoc.prems(2) by (cases ys) auto
    then have "decimal u = ys" using False u by (intro snoc.IH) simp_all
    moreover have "0 < u" using False hd u by (rule numeral_value_pos)
    ultimately show ?thesis using v d10 dc by (subst decimal.simps) simp
  qed
qed

lemma read_nat_unique: "read_nat s = Some n \<Longrightarrow> s = decimal n"
  using decimal_numeral_value [of s n] by (auto simp add: read_nat_def split: if_splits)

lemma read_decimal_unique: "read_decimal s = Some n \<Longrightarrow> s = itoa n"
proof -
  assume a: "read_decimal s = Some n"
  then obtain c cs where s: "s = c # cs" by (cases s) (auto simp add: read_decimal_def)
  show ?thesis
  proof (cases "c = CHR ''-''")
    case True
    then obtain k where "read_nat cs = Some k" "k \<noteq> 0" "n = - int k"
      using a s by (auto simp add: read_decimal_def split: option.splits if_splits)
    then show ?thesis using True s read_nat_unique [of cs k] by (simp add: itoa_def)
  next
    case False
    then obtain k where "read_nat s = Some k" "n = int k"
      using a s by (auto simp add: read_decimal_def)
    then show ?thesis using read_nat_unique [of s k] by (simp add: itoa_def)
  qed
qed

section \<open>The address parser accepts the textual forms\<close>

lemma hex_digit_table:
  "list_all (\<lambda>c. hex_val c = Some (hex_digit_value c) \<and> hex_digit_value c < 16
       \<and> c \<noteq> CHR '':'' \<and> c \<noteq> CHR ''.'' \<and> c \<noteq> CHR ''%'')
     ''0123456789abcdefABCDEF''"
  by (simp add: hex_val_def hex_digit_value_def hex_digits_def hex_digits_upper_def)

lemma hex_digit_iff: "hex_digit c = (c \<in> set ''0123456789abcdefABCDEF'')"
  by (auto simp add: hex_digit_def hex_digits_def hex_digits_upper_def)

lemma hex_val_hex_digit:
  assumes "hex_digit c"
  shows "hex_val c = Some (hex_digit_value c)" and "hex_digit_value c < 16"
    and "c \<noteq> CHR '':''" and "c \<noteq> CHR ''.''" and "c \<noteq> CHR ''%''"
  using assms hex_digit_table unfolding hex_digit_iff list_all_iff by blast+

lemma hex_val_colon: "hex_val CHR '':'' = None"
  by (simp add: hex_val_def)

lemma low_byte: "(of_nat (v mod 256) :: byte) = of_nat v"
  by (simp add: word_of_nat_eq_iff take_bit_eq_mod)

lemma hex_group_digits:
  assumes "list_all hex_digit g" "off + length g \<le> 4" "acc < 16 ^ off"
    and "rest = [] \<or> hex_val (hd rest) = None"
  shows "hex_group (g @ rest) acc off =
     Some (foldl (\<lambda>a c. 16 * a + hex_digit_value c) acc g, off + length g, rest)"
  using assms
proof (induction g arbitrary: acc off)
  case Nil
  then show ?case by (cases rest) auto
next
  case (Cons c g)
  have c: "hex_val c = Some (hex_digit_value c)" "hex_digit_value c < 16"
    using Cons.prems(1) hex_val_hex_digit by simp_all
  have off: "off \<le> 3" using Cons.prems(2) by simp
  have "acc + 1 \<le> 16 ^ off" using Cons.prems(3) by simp
  then have "16 * (acc + 1) \<le> 16 * 16 ^ off" by (simp only: mult_le_mono2)
  then have lt: "acc * 16 + hex_digit_value c < 16 ^ (off + 1)" using c(2) by simp
  have "(16 :: nat) ^ (off + 1) \<le> 16 ^ 4" using off by (intro power_increasing) simp_all
  then have small: "acc * 16 + hex_digit_value c \<le> 65535" using lt by simp
  have "hex_group ((c # g) @ rest) acc off =
      hex_group (g @ rest) (acc * 16 + hex_digit_value c) (off + 1)"
    using c off small by simp
  also have "\<dots> = Some (foldl (\<lambda>a c. 16 * a + hex_digit_value c) (acc * 16 + hex_digit_value c) g,
      (off + 1) + length g, rest)"
    using Cons.prems lt by (intro Cons.IH) simp_all
  finally show ?case by (simp add: mult.commute)
qed

lemma hex_group_wf:
  assumes "wf_group g" "rest = [] \<or> hd rest = CHR '':''"
  shows "hex_group (g @ rest) 0 0 = Some (group_value g, length g, rest)"
  using hex_group_digits [of g 0 0 rest] assms
  by (auto simp add: wf_group_def group_value_def hex_val_colon)

lemma two_bytes: "[of_nat (v div 256), of_nat v :: byte] = [of_nat (v div 256), of_nat (v mod 256)]"
  by (simp add: low_byte)

lemma join_groups_Cons:
  "gs \<noteq> [] \<Longrightarrow> join_groups (g # gs) = g @ CHR '':'' # join_groups gs"
  by (cases gs) simp_all

lemma hd_join_groups:
  assumes "list_all wf_group gs" "gs \<noteq> []"
  shows "join_groups gs \<noteq> []" and "hex_digit (hd (join_groups gs))"
proof -
  obtain g gs' where gs: "gs = g # gs'" using assms(2) by (cases gs) auto
  then have g: "g \<noteq> []" "hex_digit (hd g)"
    using assms(1) by (cases g; simp add: wf_group_def)+
  show "join_groups gs \<noteq> []" using gs g by (cases gs') simp_all
  show "hex_digit (hd (join_groups gs))" using gs g by (cases gs') simp_all
qed

text \<open>One turn of the loop on a group followed by the end of the text.\<close>

lemma ipv6_loop_last:
  assumes "wf_group g" "length ip < 16"
  shows "ipv6_loop g ip e = Some (ip @ group_bytes g, e, [])"
proof -
  have hg: "hex_group g 0 0 = Some (group_value g, length g, [])"
    using hex_group_wf [OF assms(1), of "[]"] by simp
  have "length g \<noteq> 0" using assms(1) by (auto simp add: wf_group_def)
  then show ?thesis
    using assms(2) by (subst ipv6_loop.simps) (simp add: hg group_bytes_def low_byte)
qed

text \<open>One turn of the loop on a group followed by a colon and another group.\<close>

lemma ipv6_loop_step:
  assumes "wf_group g" "length ip < 16" "rest \<noteq> []" "hex_digit (hd rest)"
  shows "ipv6_loop (g @ CHR '':'' # rest) ip e = ipv6_loop rest (ip @ group_bytes g) e"
proof -
  have hg: "hex_group (g @ CHR '':'' # rest) 0 0 = Some (group_value g, length g, CHR '':'' # rest)"
    using hex_group_wf [OF assms(1), of "CHR '':'' # rest"] by simp
  have g: "length g \<noteq> 0" using assms(1) by (auto simp add: wf_group_def)
  have r: "hd rest \<noteq> CHR '':''" using hex_val_hex_digit(3) [OF assms(4)] .
  show ?thesis
    using assms(2,3) g r
    by (subst ipv6_loop.simps) (simp add: hg group_bytes_def low_byte)
qed

text \<open>One turn of the loop on a group followed by the double colon.\<close>

lemma ipv6_loop_ellipsis:
  assumes "wf_group g" "length ip < 16"
  shows "ipv6_loop (g @ CHR '':'' # CHR '':'' # rest) ip None =
     (if rest = [] then Some (ip @ group_bytes g, Some (length ip + 2), [])
      else ipv6_loop rest (ip @ group_bytes g) (Some (length ip + 2)))"
proof -
  have hg: "hex_group (g @ CHR '':'' # CHR '':'' # rest) 0 0 =
      Some (group_value g, length g, CHR '':'' # CHR '':'' # rest)"
    using hex_group_wf [OF assms(1), of "CHR '':'' # CHR '':'' # rest"] by simp
  have g: "length g \<noteq> 0" using assms(1) by (auto simp add: wf_group_def)
  show ?thesis
    using assms(2) g
    by (subst ipv6_loop.simps) (simp add: hg group_bytes_def low_byte)
qed

lemma length_group_bytes1 [simp]: "length (group_bytes g) = 2"
  by (simp add: group_bytes_def)

lemma length_group_bytes: "length (concat (map group_bytes gs)) = 2 * length gs"
  by (induction gs) simp_all

lemma ipv6_loop_groups:
  assumes "list_all wf_group gs" "gs \<noteq> []" "length ip + 2 * length gs \<le> 16"
  shows "ipv6_loop (join_groups gs) ip e = Some (ip @ concat (map group_bytes gs), e, [])"
  using assms
proof (induction gs arbitrary: ip)
  case Nil
  then show ?case by simp
next
  case (Cons g gs)
  have g: "wf_group g" and lt: "length ip < 16" using Cons.prems by simp_all
  show ?case
  proof (cases "gs = []")
    case True
    then show ?thesis using ipv6_loop_last [OF g lt] by simp
  next
    case False
    have wf: "list_all wf_group gs" using Cons.prems(1) by simp
    have "ipv6_loop (join_groups (g # gs)) ip e =
        ipv6_loop (join_groups gs) (ip @ group_bytes g) e"
      using ipv6_loop_step [OF g lt hd_join_groups [OF wf False]]
      by (simp add: join_groups_Cons [OF False])
    also have "\<dots> = Some ((ip @ group_bytes g) @ concat (map group_bytes gs), e, [])"
      using wf False Cons.prems(3) by (intro Cons.IH) simp_all
    finally show ?thesis by simp
  qed
qed

lemma ipv6_loop_compressed:
  assumes "list_all wf_group pre" "pre \<noteq> []" "list_all wf_group post"
    and "length ip + 2 * (length pre + length post) \<le> 14"
  shows "ipv6_loop (join_groups pre @ ''::'' @ join_groups post) ip None =
     Some (ip @ concat (map group_bytes pre) @ concat (map group_bytes post),
           Some (length ip + 2 * length pre), [])"
  using assms
proof (induction pre arbitrary: ip)
  case Nil
  then show ?case by simp
next
  case (Cons g pre)
  have g: "wf_group g" and lt: "length ip < 16" using Cons.prems by simp_all
  show ?case
  proof (cases "pre = []")
    case True
    show ?thesis
    proof (cases "post = []")
      case True
      then show ?thesis
        using ipv6_loop_ellipsis [OF g lt, of "[]"] \<open>pre = []\<close> by simp
    next
      case False
      have "ipv6_loop (join_groups post) (ip @ group_bytes g) (Some (length ip + 2)) =
          Some ((ip @ group_bytes g) @ concat (map group_bytes post), Some (length ip + 2), [])"
        using Cons.prems(3,4) False by (intro ipv6_loop_groups) simp_all
      then show ?thesis
        using ipv6_loop_ellipsis [OF g lt, of "join_groups post"] \<open>pre = []\<close>
          hd_join_groups(1) [OF Cons.prems(3) False]
        by simp
    qed
  next
    case False
    have wf: "list_all wf_group pre" using Cons.prems(1) by simp
    have ne: "join_groups pre @ ''::'' @ join_groups post \<noteq> []" by simp
    have hd: "hex_digit (hd (join_groups pre @ ''::'' @ join_groups post))"
      using hd_join_groups [OF wf False] by simp
    have "ipv6_loop (join_groups (g # pre) @ ''::'' @ join_groups post) ip None =
        ipv6_loop (join_groups pre @ ''::'' @ join_groups post) (ip @ group_bytes g) None"
      using ipv6_loop_step [OF g lt ne hd] by (simp add: join_groups_Cons [OF False])
    also have "\<dots> = Some ((ip @ group_bytes g) @ concat (map group_bytes pre)
          @ concat (map group_bytes post), Some (length (ip @ group_bytes g) + 2 * length pre), [])"
      using wf False Cons.prems(3,4) by (intro Cons.IH) simp_all
    finally show ?thesis by simp
  qed
qed

lemma set_join_groups:
  "list_all wf_group gs \<Longrightarrow> c \<in> set (join_groups gs) \<Longrightarrow> hex_digit c \<or> c = CHR '':''"
proof (induction gs rule: join_groups.induct)
  case 1
  then show ?case by simp
next
  case (2 g)
  then show ?case by (auto simp add: wf_group_def list_all_iff)
next
  case (3 g h gs)
  then show ?case by (auto simp add: wf_group_def list_all_iff)
qed

lemma ParseIP_scan_hex:
  assumes "\<forall>c\<in>set cs. hex_digit c \<or> c = CHR '':''" "CHR '':'' \<in> set cs"
  shows "ParseIP_scan s cs = parseIPv6 s"
  using assms
proof (induction cs)
  case Nil
  then show ?case by simp
next
  case (Cons c cs)
  show ?case
  proof (cases "c = CHR '':''")
    case True
    then show ?thesis by simp
  next
    case False
    then have "hex_digit c" and "CHR '':'' \<in> set cs" using Cons.prems by auto
    then show ?thesis using Cons hex_val_hex_digit(4,5) [of c] False by simp
  qed
qed

lemma no_percent:
  assumes "\<forall>c\<in>set s. hex_digit c \<or> c = CHR '':''"
  shows "CHR ''%'' \<notin> set s"
  using assms hex_val_hex_digit(5) by auto

lemma colon_in_join: "2 \<le> length gs \<Longrightarrow> CHR '':'' \<in> set (join_groups gs)"
proof (induction gs rule: join_groups.induct)
  case (3 g h gs)
  then show ?case by simp
qed simp_all

lemma take2_hex:
  assumes "s \<noteq> []" "hex_digit (hd s)"
  shows "take 2 s \<noteq> ''::''"
proof -
  obtain c cs where "s = c # cs" using assms(1) by (cases s) auto
  then show ?thesis using hex_val_hex_digit(3) [OF assms(2)] by (cases cs) auto
qed

lemma ParseIP_full:
  assumes "list_all wf_group gs" "length gs = 8"
  shows "ParseIP (join_groups gs) = Some (concat (map group_bytes gs))"
proof -
  let ?s = "join_groups gs"
  have ne: "gs \<noteq> []" using assms(2) by auto
  have chars: "\<forall>c\<in>set ?s. hex_digit c \<or> c = CHR '':''"
    using set_join_groups [OF assms(1)] by blast
  have "CHR '':'' \<in> set ?s" using assms(2) by (intro colon_in_join) simp
  then have 1: "ParseIP ?s = parseIPv6 ?s"
    unfolding ParseIP_def using chars by (intro ParseIP_scan_hex)
  have t: "take 2 ?s \<noteq> ''::''" using hd_join_groups [OF assms(1) ne] by (rule take2_hex)
  have l: "ipv6_loop ?s [] None = Some (concat (map group_bytes gs), None, [])"
    using ipv6_loop_groups [OF assms(1) ne, of "[]" None] assms(2) by simp
  show ?thesis
    unfolding 1 parseIPv6_def using no_percent [OF chars] t l assms(2)
    by (simp add: length_group_bytes)
qed

lemma ParseIP_compressed:
  assumes "list_all wf_group pre" "list_all wf_group post" "length pre + length post \<le> 7"
  shows "ParseIP (join_groups pre @ ''::'' @ join_groups post) = Some (ipv6_bytes pre post)"
proof -
  let ?s = "join_groups pre @ ''::'' @ join_groups post"
  have chars: "\<forall>c\<in>set ?s. hex_digit c \<or> c = CHR '':''"
    using set_join_groups [OF assms(1)] set_join_groups [OF assms(2)] by auto
  have 1: "ParseIP ?s = parseIPv6 ?s"
    unfolding ParseIP_def using chars by (intro ParseIP_scan_hex) simp_all
  note np = no_percent [OF chars]
  show ?thesis
  proof (cases "pre = []")
    case True
    show ?thesis
    proof (cases "post = []")
      case True
      then show ?thesis using \<open>pre = []\<close> unfolding 1 parseIPv6_def by (simp add: ipv6_bytes_def)
    next
      case False
      have l: "ipv6_loop (join_groups post) [] (Some 0) = Some (concat (map group_bytes post), Some 0, [])"
        using ipv6_loop_groups [OF assms(2) False, of "[]" "Some 0"] assms(3) by simp
      have "join_groups post \<noteq> []" using hd_join_groups(1) [OF assms(2) False] .
      then show ?thesis
        using \<open>pre = []\<close> np l assms(3) unfolding 1 parseIPv6_def
        by (simp add: ipv6_bytes_def length_group_bytes)
    qed
  next
    case False
    have t: "take 2 ?s \<noteq> ''::''"
      using hd_join_groups [OF assms(1) False] by (intro take2_hex) simp_all
    have l: "ipv6_loop ?s [] None =
        Some (concat (map group_bytes pre) @ concat (map group_bytes post), Some (2 * length pre), [])"
      using ipv6_loop_compressed [OF assms(1) False assms(2), of "[]"] assms(3) by simp
    show ?thesis
      unfolding 1 parseIPv6_def using np t l assms(3)
      by (simp add: ipv6_bytes_def length_group_bytes)
  qed
qed

lemma digit_table:
  "list_all (\<lambda>c. digit_val c = digit_of c \<and> hex_digit c) ''0123456789''"
  by (simp add: digit_val_def digit_of_def hex_digit_def hex_digits_def)

lemma digit_of_iff: "(digit_of c \<noteq> None) = (c \<in> set ''0123456789'')"
  by (auto simp add: digit_of_def)

lemma digit_val_digit_of:
  assumes "digit_of c = Some d"
  shows "digit_val c = Some d" and "hex_digit c"
proof -
  have "c \<in> set ''0123456789''" using assms digit_of_iff [of c] by simp
  then have "digit_val c = digit_of c \<and> hex_digit c"
    using digit_table unfolding list_all_iff by blast
  then show "digit_val c = Some d" and "hex_digit c" using assms by simp_all
qed

lemma digit_val_dot: "digit_val CHR ''.'' = None"
  by (simp add: digit_val_def)

text \<open>Digits after the first digit of a field.\<close>

lemma parseIPv4Fields_digits:
  assumes "numeral_value ds v = Some n" "n \<le> 255" "2 \<le> k \<or> (k = 1 \<and> v \<noteq> 0)"
  shows "parseIPv4Fields (ds @ rest) v k fs = parseIPv4Fields rest n (k + length ds) fs"
  using assms
proof (induction ds arbitrary: v k)
  case Nil
  then show ?case by simp
next
  case (Cons c ds)
  from Cons.prems(1) obtain d where d: "digit_of c = Some d"
    and v: "numeral_value ds (10 * v + d) = Some n"
    by (auto split: option.splits)
  have "10 * v + d \<le> n" using v by (rule numeral_value_ge)
  then have small: "\<not> 255 < v * 10 + d" using Cons.prems(2) by simp
  have nz: "\<not> (k = 1 \<and> v = 0)" using Cons.prems(3) by auto
  have "parseIPv4Fields ((c # ds) @ rest) v k fs =
      parseIPv4Fields (ds @ rest) (10 * v + d) (k + 1) fs"
    using digit_val_digit_of(1) [OF d] small nz by (auto simp add: mult.commute)
  also have "\<dots> = parseIPv4Fields rest n ((k + 1) + length ds) fs"
    using v Cons.prems(2,3) by (intro Cons.IH) auto
  finally show ?case by simp
qed

text \<open>A whole field, from the state in which a field begins.\<close>

lemma parseIPv4Fields_octet:
  assumes "wf_octet ds"
  shows "parseIPv4Fields (ds @ rest) 0 0 fs =
      parseIPv4Fields rest (octet_value ds) (length ds) fs"
    and "ds \<noteq> []"
proof -
  from assms obtain n where r: "read_nat ds = Some n" and n: "n \<le> 255"
    by (auto simp add: wf_octet_def split: option.splits)
  then have ov: "octet_value ds = n" by (simp add: octet_value_def)
  from r obtain c cs where ds: "ds = c # cs" by (cases ds) (auto simp add: read_nat_def)
  then show "ds \<noteq> []" by simp
  from r ds have canon: "c = CHR ''0'' \<Longrightarrow> cs = []" and nv: "numeral_value (c # cs) 0 = Some n"
    by (auto simp add: read_nat_def split: if_splits)
  from nv obtain d where d: "digit_of c = Some d" and v: "numeral_value cs d = Some n"
    by (auto split: option.splits)
  have d255: "\<not> 255 < d" using numeral_value_ge [OF v] n by simp
  have first: "parseIPv4Fields ((c # cs) @ rest) 0 0 fs = parseIPv4Fields (cs @ rest) d 1 fs"
    using digit_val_digit_of(1) [OF d] d255 by simp
  show "parseIPv4Fields (ds @ rest) 0 0 fs =
      parseIPv4Fields rest (octet_value ds) (length ds) fs"
  proof (cases "cs = []")
    case True
    then show ?thesis using first v ds ov by simp
  next
    case False
    then have "c \<noteq> CHR ''0''" using canon by auto
    then have "d \<noteq> 0" using d by (auto simp add: digit_of_def split: if_splits)
    then have "parseIPv4Fields (cs @ rest) d 1 fs = parseIPv4Fields rest n (1 + length cs) fs"
      using v n by (intro parseIPv4Fields_digits) simp_all
    then show ?thesis using first ds ov by simp
  qed
qed

lemma parseIPv4Fields_dot:
  assumes "0 < k" "rest \<noteq> []" "length fs < 3"
  shows "parseIPv4Fields (CHR ''.'' # rest) v k fs = parseIPv4Fields rest 0 0 (fs @ [of_nat v])"
  using assms by (simp add: digit_val_dot)

lemma parseIPv4Fields_quad:
  assumes "wf_octet a" "wf_octet b" "wf_octet c" "wf_octet d"
  shows "parseIPv4Fields (dotted_quad a b c d) 0 0 [] = Some (quad_bytes a b c d)"
proof -
  note o = parseIPv4Fields_octet
  have ne: "a \<noteq> []" "b \<noteq> []" "c \<noteq> []" "d \<noteq> []"
    using assms o(2) by blast+
  have "parseIPv4Fields (a @ CHR ''.'' # b @ CHR ''.'' # c @ CHR ''.'' # d) 0 0 [] =
      parseIPv4Fields (CHR ''.'' # b @ CHR ''.'' # c @ CHR ''.'' # d) (octet_value a) (length a) []"
    by (rule o(1) [OF assms(1)])
  also have "\<dots> = parseIPv4Fields (b @ CHR ''.'' # c @ CHR ''.'' # d) 0 0 [of_nat (octet_value a)]"
    using ne by (subst parseIPv4Fields_dot) simp_all
  also have "\<dots> = parseIPv4Fields (CHR ''.'' # c @ CHR ''.'' # d) (octet_value b) (length b)
      [of_nat (octet_value a)]"
    by (rule o(1) [OF assms(2)])
  also have "\<dots> = parseIPv4Fields (c @ CHR ''.'' # d) 0 0
      [of_nat (octet_value a), of_nat (octet_value b)]"
    using ne by (subst parseIPv4Fields_dot) simp_all
  also have "\<dots> = parseIPv4Fields (CHR ''.'' # d) (octet_value c) (length c)
      [of_nat (octet_value a), of_nat (octet_value b)]"
    by (rule o(1) [OF assms(3)])
  also have "\<dots> = parseIPv4Fields (d @ []) 0 0
      [of_nat (octet_value a), of_nat (octet_value b), of_nat (octet_value c)]"
    using ne by (subst parseIPv4Fields_dot) simp_all
  also have "\<dots> = parseIPv4Fields [] (octet_value d) (length d)
      [of_nat (octet_value a), of_nat (octet_value b), of_nat (octet_value c)]"
    by (rule o(1) [OF assms(4)])
  finally show ?thesis by (simp add: dotted_quad_def quad_bytes_def)
qed

lemma hex_val_dot: "hex_val CHR ''.'' = None"
  by (simp add: hex_val_def)

lemma numeral_value_digits:
  "numeral_value cs acc = Some n \<Longrightarrow> c \<in> set cs \<Longrightarrow> hex_digit c"
proof (induction cs arbitrary: acc)
  case Nil
  then show ?case by simp
next
  case (Cons x cs)
  from Cons.prems(1) obtain d where d: "digit_of x = Some d"
    and v: "numeral_value cs (10 * acc + d) = Some n"
    by (auto split: option.splits)
  show ?case
  proof (cases "c = x")
    case True
    then show ?thesis using digit_val_digit_of(2) [OF d] by simp
  next
    case False
    then have "c \<in> set cs" using Cons.prems(2) by simp
    with v show ?thesis by (rule Cons.IH)
  qed
qed

lemma numeral_value_lower:
  "numeral_value cs acc = Some n \<Longrightarrow> acc * 10 ^ length cs \<le> n"
proof (induction cs arbitrary: acc)
  case Nil
  then show ?case by simp
next
  case (Cons x cs)
  from Cons.prems obtain d where v: "numeral_value cs (10 * acc + d) = Some n"
    by (auto split: option.splits)
  have "acc * 10 ^ length (x # cs) \<le> (10 * acc + d) * 10 ^ length cs" by (simp add: algebra_simps)
  also have "\<dots> \<le> n" using v by (rule Cons.IH)
  finally show ?case .
qed

lemma wf_octet_digits:
  assumes "wf_octet ds"
  shows "list_all hex_digit ds" and "length ds \<le> 3" and "ds \<noteq> []"
proof -
  from assms obtain n where r: "read_nat ds = Some n" and n: "n \<le> 255"
    by (auto simp add: wf_octet_def split: option.splits)
  from r obtain c cs where ds: "ds = c # cs" by (cases ds) (auto simp add: read_nat_def)
  then show "ds \<noteq> []" by simp
  from r ds have canon: "c = CHR ''0'' \<Longrightarrow> cs = []" and nv: "numeral_value ds 0 = Some n"
    by (auto simp add: read_nat_def split: if_splits)
  show "list_all hex_digit ds"
    using numeral_value_digits [OF nv] by (simp add: list_all_iff)
  show "length ds \<le> 3"
  proof (cases "cs = []")
    case True
    then show ?thesis using ds by simp
  next
    case False
    from nv ds obtain d where d: "digit_of c = Some d" and v: "numeral_value cs d = Some n"
      by (auto split: option.splits)
    have "c \<noteq> CHR ''0''" using canon False by auto
    then have "1 \<le> d" using d by (auto simp add: digit_of_def split: if_splits)
    then have "1 * 10 ^ length cs \<le> d * 10 ^ length cs" by (intro mult_le_mono1)
    also have "\<dots> \<le> n" using v by (rule numeral_value_lower)
    finally have "(10 :: nat) ^ length cs \<le> 255" using n by simp
    then have "\<not> 3 \<le> length cs"
      using power_increasing [of 3 "length cs" "10 :: nat"] by auto
    then show ?thesis using ds by simp
  qed
qed

lemma hd_dotted_quad:
  assumes "wf_octet a"
  shows "dotted_quad a b c d \<noteq> []" and "hex_digit (hd (dotted_quad a b c d))"
  using wf_octet_digits [OF assms] by (cases a; simp add: dotted_quad_def)+

text \<open>The turn of the loop that finds the dotted quad.\<close>

lemma ipv6_loop_quad:
  assumes "wf_octet a" "wf_octet b" "wf_octet c" "wf_octet d"
    and "e \<noteq> None \<or> length ip = 12" "length ip \<le> 12"
  shows "ipv6_loop (dotted_quad a b c d) ip e = Some (ip @ quad_bytes a b c d, e, [])"
proof -
  let ?rest = "CHR ''.'' # b @ ''.'' @ c @ ''.'' @ d"
  have q: "dotted_quad a b c d = a @ ?rest" by (simp add: dotted_quad_def)
  have "hex_group (a @ ?rest) 0 0 =
      Some (foldl (\<lambda>x c. 16 * x + hex_digit_value c) 0 a, 0 + length a, ?rest)"
    using wf_octet_digits [OF assms(1)] by (intro hex_group_digits) (simp_all add: hex_val_dot)
  then have hg: "hex_group (dotted_quad a b c d) 0 0 =
      Some (foldl (\<lambda>x c. 16 * x + hex_digit_value c) 0 a, length a, ?rest)"
    by (simp add: q)
  have a: "length a \<noteq> 0" using wf_octet_digits(3) [OF assms(1)] by simp
  have p: "parseIPv4Fields (dotted_quad a b c d) 0 0 [] = Some (quad_bytes a b c d)"
    using assms(1-4) by (rule parseIPv4Fields_quad)
  show ?thesis
    using assms(5,6) a
    by (subst ipv6_loop.simps) (auto simp add: hg p)
qed

lemma join_groups_tail:
  "gs \<noteq> [] \<Longrightarrow> join_groups (g # gs) @ t = g @ CHR '':'' # (join_groups gs @ t)"
  by (cases gs) simp_all

lemma ipv6_loop_groups_quad:
  assumes "list_all wf_group gs" "gs \<noteq> []"
    and "wf_octet a" "wf_octet b" "wf_octet c" "wf_octet d"
    and "e \<noteq> None \<or> length ip + 2 * length gs = 12" "length ip + 2 * length gs \<le> 12"
  shows "ipv6_loop (join_groups gs @ CHR '':'' # dotted_quad a b c d) ip e =
     Some (ip @ concat (map group_bytes gs) @ quad_bytes a b c d, e, [])"
  using assms(1,2,7,8)
proof (induction gs arbitrary: ip)
  case Nil
  then show ?case by simp
next
  case (Cons g gs)
  have g: "wf_group g" and lt: "length ip < 16" using Cons.prems by simp_all
  note hq = hd_dotted_quad [OF assms(3), of b c d]
  show ?case
  proof (cases "gs = []")
    case True
    have "ipv6_loop (g @ CHR '':'' # dotted_quad a b c d) ip e =
        ipv6_loop (dotted_quad a b c d) (ip @ group_bytes g) e"
      using g lt hq by (rule ipv6_loop_step)
    also have "\<dots> = Some ((ip @ group_bytes g) @ quad_bytes a b c d, e, [])"
      using assms(3-6) Cons.prems(3,4) True by (intro ipv6_loop_quad) auto
    finally show ?thesis using True by simp
  next
    case False
    have wf: "list_all wf_group gs" using Cons.prems(1) by simp
    let ?t = "join_groups gs @ CHR '':'' # dotted_quad a b c d"
    have ne: "?t \<noteq> []" by simp
    have hd: "hex_digit (hd ?t)" using hd_join_groups [OF wf False] by simp
    have "ipv6_loop (join_groups (g # gs) @ CHR '':'' # dotted_quad a b c d) ip e =
        ipv6_loop ?t (ip @ group_bytes g) e"
      using ipv6_loop_step [OF g lt ne hd] by (simp add: join_groups_tail [OF False])
    also have "\<dots> = Some ((ip @ group_bytes g) @ concat (map group_bytes gs)
        @ quad_bytes a b c d, e, [])"
      using wf False Cons.prems(3,4) by (intro Cons.IH) auto
    finally show ?thesis by simp
  qed
qed

text \<open>The groups before the double colon, whatever follows it.\<close>

lemma ipv6_loop_pre:
  assumes "list_all wf_group pre" "pre \<noteq> []" "length ip + 2 * length pre \<le> 16"
  shows "ipv6_loop (join_groups pre @ ''::'' @ t) ip None =
     (if t = [] then Some (ip @ concat (map group_bytes pre), Some (length ip + 2 * length pre), [])
      else ipv6_loop t (ip @ concat (map group_bytes pre)) (Some (length ip + 2 * length pre)))"
  using assms
proof (induction pre arbitrary: ip)
  case Nil
  then show ?case by simp
next
  case (Cons g pre)
  have g: "wf_group g" and lt: "length ip < 16" using Cons.prems by simp_all
  show ?case
  proof (cases "pre = []")
    case True
    then show ?thesis using ipv6_loop_ellipsis [OF g lt, of t] by simp
  next
    case False
    have wf: "list_all wf_group pre" using Cons.prems(1) by simp
    have ne: "join_groups pre @ ''::'' @ t \<noteq> []" by simp
    have hd: "hex_digit (hd (join_groups pre @ ''::'' @ t))"
      using hd_join_groups [OF wf False] by simp
    have "ipv6_loop (join_groups (g # pre) @ ''::'' @ t) ip None =
        ipv6_loop (join_groups pre @ ''::'' @ t) (ip @ group_bytes g) None"
      using ipv6_loop_step [OF g lt ne hd] by (simp add: join_groups_tail [OF False])
    also have "\<dots> =
       (if t = [] then Some ((ip @ group_bytes g) @ concat (map group_bytes pre),
            Some (length (ip @ group_bytes g) + 2 * length pre), [])
        else ipv6_loop t ((ip @ group_bytes g) @ concat (map group_bytes pre))
            (Some (length (ip @ group_bytes g) + 2 * length pre)))"
      using wf False Cons.prems(3) by (intro Cons.IH) simp_all
    finally show ?thesis by simp
  qed
qed

lemma ParseIP_scan_colon:
  "list_all hex_digit xs \<Longrightarrow> ParseIP_scan s (xs @ CHR '':'' # ys) = parseIPv6 s"
proof (induction xs)
  case Nil
  then show ?case by simp
next
  case (Cons x xs)
  then show ?case using hex_val_hex_digit(3,4,5) [of x] by simp
qed

lemma ParseIP_scan_dot:
  "list_all hex_digit xs \<Longrightarrow> ParseIP_scan s (xs @ CHR ''.'' # ys) = parseIPv4 s"
proof (induction xs)
  case Nil
  then show ?case by simp
next
  case (Cons x xs)
  then show ?case using hex_val_hex_digit(3,4,5) [of x] by simp
qed

lemma set_dotted_quad:
  assumes "wf_octet a" "wf_octet b" "wf_octet c" "wf_octet d" "x \<in> set (dotted_quad a b c d)"
  shows "hex_digit x \<or> x = CHR ''.''"
  using assms(5) wf_octet_digits(1) [OF assms(1)] wf_octet_digits(1) [OF assms(2)]
    wf_octet_digits(1) [OF assms(3)] wf_octet_digits(1) [OF assms(4)]
  by (auto simp add: dotted_quad_def list_all_iff)

lemma not_percent: "hex_digit x \<or> x = CHR ''.'' \<or> x = CHR '':'' \<Longrightarrow> x \<noteq> CHR ''%''"
  using hex_val_hex_digit(5) [of x] by auto

lemma wf_group_digits: "wf_group g \<Longrightarrow> list_all hex_digit g"
  by (simp add: wf_group_def)

text \<open>A text that begins with groups joined by colons and goes on with a colon.\<close>

lemma ParseIP_groups_then_colon:
  assumes "list_all wf_group gs" "gs \<noteq> []"
  shows "ParseIP (join_groups gs @ CHR '':'' # t) = parseIPv6 (join_groups gs @ CHR '':'' # t)"
proof -
  obtain g gs' where gs: "gs = g # gs'" using assms(2) by (cases gs) auto
  then have g: "list_all hex_digit g" using assms(1) by (simp add: wf_group_def)
  have "\<exists>ys. join_groups gs @ CHR '':'' # t = g @ CHR '':'' # ys"
    using gs by (cases gs') simp_all
  then obtain ys where "join_groups gs @ CHR '':'' # t = g @ CHR '':'' # ys" ..
  then show ?thesis unfolding ParseIP_def using ParseIP_scan_colon [OF g] by simp
qed

lemma ParseIP_dotted_quad:
  assumes "wf_octet a" "wf_octet b" "wf_octet c" "wf_octet d"
  shows "ParseIP (dotted_quad a b c d) = Some (v4InV6Prefix @ quad_bytes a b c d)"
proof -
  have "dotted_quad a b c d = a @ CHR ''.'' # (b @ ''.'' @ c @ ''.'' @ d)"
    by (simp add: dotted_quad_def)
  then have "ParseIP (dotted_quad a b c d) = parseIPv4 (dotted_quad a b c d)"
    unfolding ParseIP_def using ParseIP_scan_dot [OF wf_octet_digits(1) [OF assms(1)]] by simp
  then show ?thesis by (simp add: parseIPv4_def parseIPv4Fields_quad [OF assms])
qed

lemma ParseIP_mixed_full:
  assumes "list_all wf_group gs" "length gs = 6"
    and "wf_octet a" "wf_octet b" "wf_octet c" "wf_octet d"
  shows "ParseIP (join_groups gs @ CHR '':'' # dotted_quad a b c d) =
     Some (concat (map group_bytes gs) @ quad_bytes a b c d)"
proof -
  let ?s = "join_groups gs @ CHR '':'' # dotted_quad a b c d"
  have ne: "gs \<noteq> []" using assms(2) by auto
  have 1: "ParseIP ?s = parseIPv6 ?s" using assms(1) ne by (rule ParseIP_groups_then_colon)
  have chars: "\<forall>x\<in>set ?s. hex_digit x \<or> x = CHR ''.'' \<or> x = CHR '':''"
    using set_join_groups [OF assms(1)] set_dotted_quad [OF assms(3-6)] by auto
  then have np: "CHR ''%'' \<notin> set ?s" using not_percent by blast
  have t: "take 2 ?s \<noteq> ''::''"
    using hd_join_groups [OF assms(1) ne] by (intro take2_hex) simp_all
  have l: "ipv6_loop ?s [] None =
      Some (concat (map group_bytes gs) @ quad_bytes a b c d, None, [])"
    using ipv6_loop_groups_quad [OF assms(1) ne assms(3-6), of None "[]"] assms(2) by simp
  show ?thesis
    unfolding 1 parseIPv6_def using np t l assms(2)
    by (simp add: length_group_bytes quad_bytes_def)
qed

lemma ipv6_loop_mixed_tail:
  assumes "list_all wf_group post" "wf_octet a" "wf_octet b" "wf_octet c" "wf_octet d"
    and "length ip + 2 * length post \<le> 12"
  shows "ipv6_loop (mixed_tail post (dotted_quad a b c d)) ip (Some k) =
     Some (ip @ concat (map group_bytes post) @ quad_bytes a b c d, Some k, [])"
proof (cases "post = []")
  case True
  then show ?thesis
    using ipv6_loop_quad [OF assms(2-5), of "Some k" ip] assms(6) by (simp add: mixed_tail_def)
next
  case False
  then show ?thesis
    using ipv6_loop_groups_quad [OF assms(1) False assms(2-5), of "Some k" ip] assms(6)
    by (simp add: mixed_tail_def)
qed

lemma mixed_tail_nonempty:
  assumes "wf_octet a"
  shows "mixed_tail post (dotted_quad a b c d) \<noteq> []"
  using hd_dotted_quad(1) [OF assms, of b c d] by (simp add: mixed_tail_def)

lemma ParseIP_mixed_compressed:
  assumes "list_all wf_group pre" "list_all wf_group post" "length pre + length post \<le> 5"
    and "wf_octet a" "wf_octet b" "wf_octet c" "wf_octet d"
  shows "ParseIP (join_groups pre @ ''::'' @ mixed_tail post (dotted_quad a b c d)) =
     Some (ipv6_mixed_bytes pre post a b c d)"
proof -
  let ?t = "mixed_tail post (dotted_quad a b c d)"
  let ?s = "join_groups pre @ ''::'' @ ?t"
  have tchars: "\<forall>x\<in>set ?t. hex_digit x \<or> x = CHR ''.'' \<or> x = CHR '':''"
    using set_join_groups [OF assms(2)] set_dotted_quad [OF assms(4-7)]
    by (auto simp add: mixed_tail_def)
  then have chars: "\<forall>x\<in>set ?s. hex_digit x \<or> x = CHR ''.'' \<or> x = CHR '':''"
    using set_join_groups [OF assms(1)] by auto
  then have np: "CHR ''%'' \<notin> set ?s" using not_percent by blast
  have tne: "?t \<noteq> []" using assms(4) by (rule mixed_tail_nonempty)
  have lq: "length (quad_bytes a b c d) = 4" by (simp add: quad_bytes_def)
  show ?thesis
  proof (cases "pre = []")
    case True
    have 1: "ParseIP ?s = parseIPv6 ?s"
      unfolding ParseIP_def using True ParseIP_scan_colon [of "[]"] by simp
    have l: "ipv6_loop ?t [] (Some 0) =
        Some (concat (map group_bytes post) @ quad_bytes a b c d, Some 0, [])"
      using ipv6_loop_mixed_tail [OF assms(2,4-7), of "[]" 0] assms(3) by simp
    show ?thesis
      unfolding 1 parseIPv6_def using True np tne l assms(3)
      by (simp add: ipv6_mixed_bytes_def length_group_bytes lq)
  next
    case False
    have "?s = join_groups pre @ CHR '':'' # (CHR '':'' # ?t)" by simp
    then have 1: "ParseIP ?s = parseIPv6 ?s"
      using ParseIP_groups_then_colon [OF assms(1) False, of "CHR '':'' # ?t"] by simp
    have t: "take 2 ?s \<noteq> ''::''"
      using hd_join_groups [OF assms(1) False] by (intro take2_hex) simp_all
    have "ipv6_loop ?s [] None =
        ipv6_loop ?t ([] @ concat (map group_bytes pre)) (Some (length ([] :: byte list) + 2 * length pre))"
      using ipv6_loop_pre [OF assms(1) False, of "[]" ?t] assms(3) tne by simp
    also have "\<dots> = Some (([] @ concat (map group_bytes pre)) @ concat (map group_bytes post)
        @ quad_bytes a b c d, Some (length ([] :: byte list) + 2 * length pre), [])"
      using assms(3) by (intro ipv6_loop_mixed_tail [OF assms(2,4-7)]) (simp add: length_group_bytes)
    finally have l: "ipv6_loop ?s [] None =
        Some (concat (map group_bytes pre) @ concat (map group_bytes post) @ quad_bytes a b c d,
          Some (2 * length pre), [])" by simp
    show ?thesis
      unfolding 1 parseIPv6_def using np t l assms(3)
      by (simp add: ipv6_mixed_bytes_def length_group_bytes lq)
  qed
qed

section \<open>The loop over several lines\<close>

lemma time_Parse_loc: "time_Parse s = Some t \<Longrightarrow> loc t \<noteq> None"
  unfolding time_Parse_def
  by (auto simp add: Option.bind_eq_Some_conv split: if_splits)

lemma time_Parse_not_noTime: "time_Parse s = Some t \<Longrightarrow> t \<noteq> noTime"
  using time_Parse_loc [of s t] by (auto simp add: noTime_def)

lemma LineToPattern_timestamp:
  assumes "LineToPattern conv line w h = Inr (Inr (p, t))"
  shows "t \<noteq> noTime"
proof -
  from assms obtain s where "time_Parse s = Some t"
    unfolding LineToPattern_def and_then_def
    by (auto split: sum.splits if_splits option.splits prod.splits)
  then show ?thesis by (rule time_Parse_not_noTime)
qed

lemma main_loop_record:
  assumes "LineToPattern conv line (Columns cfg) (Rows cfg) = Inr (Inr (p, t))"
  shows "main_loop conv cfg send t0 i (line # lines) =
     ((if t0 \<noteq> noTime then [Delaying (delay conv t0 t (Speed cfg))] else [])
        @ Pattern p # (if send i then [] else [SendFailed])
        @ fst (main_loop conv cfg send t (i + 1) lines),
      snd (main_loop conv cfg send t (i + 1) lines))"
  using assms by (simp add: case_prod_beta)

lemma main_loop_error:
  assumes "LineToPattern conv line (Columns cfg) (Rows cfg) = Inr (Inl e)"
  shows "main_loop conv cfg send t0 i (line # lines) =
     (LogPrint e # fst (main_loop conv cfg send t0 (i + 1) lines),
      snd (main_loop conv cfg send t0 (i + 1) lines))"
  using assms by (simp add: case_prod_beta)

lemma main_loop_two_records:
  assumes "LineToPattern conv l1 (Columns cfg) (Rows cfg) = Inr (Inr (p1, ta))"
    and "LineToPattern conv l2 (Columns cfg) (Rows cfg) = Inr (Inr (p2, tb))"
  shows "main_loop conv cfg send t0 i (l1 # l2 # lines) =
     ((if t0 \<noteq> noTime then [Delaying (delay conv t0 ta (Speed cfg))] else [])
        @ Pattern p1 # (if send i then [] else [SendFailed])
        @ Delaying (delay conv ta tb (Speed cfg))
        # Pattern p2 # (if send (i + 1) then [] else [SendFailed])
        @ fst (main_loop conv cfg send tb (i + 2) lines),
      snd (main_loop conv cfg send tb (i + 2) lines))"
  using LineToPattern_timestamp [OF assms(1)]
  by (simp add: main_loop_record [OF assms(1)] main_loop_record [OF assms(2)]
      del: main_loop.simps)

lemma main_loop_error_between:
  assumes "LineToPattern conv l1 (Columns cfg) (Rows cfg) = Inr (Inr (p1, ta))"
    and "LineToPattern conv bad (Columns cfg) (Rows cfg) = Inr (Inl e)"
    and "LineToPattern conv l2 (Columns cfg) (Rows cfg) = Inr (Inr (p2, tb))"
  shows "main_loop conv cfg send noTime i [l1, bad, l2] =
     (Pattern p1 # (if send i then [] else [SendFailed])
        @ LogPrint e # Delaying (delay conv ta tb (Speed cfg))
        # Pattern p2 # (if send (i + 2) then [] else [SendFailed]), None)"
  using LineToPattern_timestamp [OF assms(1)]
  by (simp add: main_loop_record [OF assms(1)] main_loop_error [OF assms(2)]
      main_loop_record [OF assms(3)] del: main_loop.simps(2))

section \<open>The delay when the timestamps go backwards\<close>

lemma f64_of_int_mul_one_neg:
  assumes "n < 0" "- (2 ^ 53) \<le> n"
  shows "f64_mul (f64_of_int n) (Float False 1) = Float True (of_int (- n))"
proof -
  have n: "0 \<le> - n" "- n \<le> 2 ^ 53" using assms by simp_all
  have "(of_int (- n) :: rat) \<le> of_int (2 ^ 53)" using n(2) by (simp only: of_int_le_iff)
  also have "\<dots> < 2 ^ 1024" by simp
  finally have lt: "(of_int (- n) :: rat) < 2 ^ 1024" .
  have a: "\<bar>of_int n :: rat\<bar> = of_int (- n)" using assms(1) by simp
  have r: "round_mag (of_int (- n)) = of_int (- n)" using n by (rule round_mag_of_int)
  have "f64_of_int n = Float True (of_int (- n))"
    unfolding f64_of_int_def a f64_round_def Let_def r using lt assms(1) by simp
  then show ?thesis
    using lt r by (simp add: f64_round_def Let_def)
qed

lemma delay_small_backwards:
  assumes "Microseconds (Sub t2 t1) < 0" "- (2 ^ 53) \<le> Microseconds (Sub t2 t1)" "0 < m"
    and "round_mag (of_int (- Microseconds (Sub t2 t1)) / m) \<le> 2 ^ 53"
  shows "delay conv t1 t2 (Float s m) =
     (if s then 1000 * \<lfloor>round_mag (of_int (- Microseconds (Sub t2 t1)) / m)\<rfloor>
      else - 1000 * \<lfloor>round_mag (of_int (- Microseconds (Sub t2 t1)) / m)\<rfloor>)"
proof -
  define q where "q = round_mag (of_int (- Microseconds (Sub t2 t1)) / m)"
  define v where "v = \<lfloor>q\<rfloor>"
  have "(0 :: rat) \<le> of_int (- Microseconds (Sub t2 t1))"
    using assms(1) by (simp only: of_int_0_le_iff)
  then have ge: "(0 :: rat) \<le> of_int (- Microseconds (Sub t2 t1)) / m"
    using assms(3) by (intro divide_nonneg_pos)
  have q0: "0 \<le> q" unfolding q_def using ge by (rule round_mag_nonneg)
  have q1: "q \<le> 2 ^ 53" using assms(4) by (simp add: q_def)
  have "q \<le> of_int (2 ^ 53)" using q1 by simp
  then have "v \<le> 2 ^ 53" unfolding v_def by (simp only: floor_le_iff)
  then have v: "0 \<le> v" "v \<le> 9007199254740992" using q0 by (simp_all add: v_def)
  have m0: "m \<noteq> 0" using assms(3) by simp
  have dq: "delay_quotient t1 t2 (Float s m) = Float (\<not> s) q"
    unfolding delay_quotient_def f64_of_int_mul_one_neg [OF assms(1,2)]
    using m0 f64_round_small [OF assms(4), of "\<not> s"] by (simp add: q_def)
  have "delay conv t1 t2 (Float s m) = wrap64 ((if \<not> s then - v else v) * 1000)"
    unfolding delay_def dq to_int64_small [OF q0 q1] v_def ..
  also have "\<dots> = (if \<not> s then - v else v) * 1000"
    using v by (intro wrap64_id) auto
  finally show ?thesis by (simp add: q_def v_def)
qed

lemma delay_negative_speed_backwards:
  assumes "Microseconds (Sub t2 t1) < 0" "- (2 ^ 53) \<le> Microseconds (Sub t2 t1)" "0 < m"
    and "of_int (- Microseconds (Sub t2 t1)) \<le> 2 ^ 53 * m"
  shows "delay conv t1 t2 (Float True m) =
      1000 * \<lfloor>round_mag (of_int (- Microseconds (Sub t2 t1)) / m)\<rfloor>"
    and "0 \<le> delay conv t1 t2 (Float True m)"
proof -
  define us where "us = - Microseconds (Sub t2 t1)"
  have le: "(of_int us :: rat) / m \<le> of_int (2 ^ 53)"
    using assms(3,4) by (simp add: us_def field_simps)
  have "(0 :: rat) \<le> of_int us"
    using assms(1) unfolding us_def by (simp only: of_int_0_le_iff)
  then have ge: "0 \<le> (of_int us :: rat) / m"
    using assms(3) by (intro divide_nonneg_pos)
  have "round_mag (of_int us / m) \<le> round_mag (of_int (2 ^ 53))"
    using ge le by (rule round_mag_mono)
  also have "\<dots> = of_int (2 ^ 53)" by (rule round_mag_of_int) simp_all
  finally have q: "round_mag (of_int (- Microseconds (Sub t2 t1)) / m) \<le> 2 ^ 53"
    by (simp add: us_def)
  from delay_small_backwards [OF assms(1,2,3) q, where s = True and conv = conv]
  show 1: "delay conv t1 t2 (Float True m) =
      1000 * \<lfloor>round_mag (of_int (- Microseconds (Sub t2 t1)) / m)\<rfloor>" by simp
  have "0 \<le> round_mag (of_int us / m)" using ge by (rule round_mag_nonneg)
  then have "0 \<le> \<lfloor>round_mag (of_int (- Microseconds (Sub t2 t1)) / m)\<rfloor>" by (simp add: us_def)
  then show "0 \<le> delay conv t1 t2 (Float True m)" unfolding 1 by simp
qed

section \<open>The sample line, step by step\<close>

lemma sample_fields:
  "SplitN sample_line CHR '' '' 4 =
     [''10.0.0.1'', ''-'', ''-'', ''[20/Nov/2022:02:27:49 +0000] \"GET / HTTP/1.1\" 200 100'']"
  unfolding sample_line_def by code_simp

lemma sample_not_blank: "\<not> blank ''10.0.0.1''"
  by code_simp

lemma sample_bracket:
  "SplitN ''[20/Nov/2022:02:27:49 +0000] \"GET / HTTP/1.1\" 200 100'' CHR '']'' 2 =
     [''[20/Nov/2022:02:27:49 +0000'', '' \"GET / HTTP/1.1\" 200 100'']"
  by code_simp

lemma sample_time:
  "time_Parse ''20/Nov/2022:02:27:49 +0000'' = Some \<lparr>sec = 63804508069, nsec = 0, loc = Some 0\<rparr>"
  by code_simp

lemma sample_xy: "IPToXY conv ''10.0.0.1'' 100 100 = Inr (- 47, - 50)"
  by (simp add: IPToXY_def ParseIP_10 index_16 and_then_def scale_examples)

lemma sample_fold:
  "xorData (bytes '' \"GET / HTTP/1.1\" 200 100'') = [70, 35, 37, 91, 32, 49, 33, 104]"
  "xorData (bytes '' GET / HTTP/1.1 200 100'') = [70, 35, 37, 91, 32, 49, 33, 104]"
  "xorData (bytes ''GET / HTTP/1.1'') = [19, 21, 123, 17, 1, 17, 72, 84]"
  by code_simp+

lemma sample_pattern:
  "MakeLife105 (- 47) (- 50) [70, 35, 37, 91, 32, 49, 33, 104] =
     [''#Life 1.05'', ''#D log2life ouput'', ''#N'', ''#P -47 -50'',
      ''.*...**.'', ''..*...**'', ''..*..*.*'', ''.*.**.**'',
      ''..*.....'', ''..**...*'', ''..*....*'', ''.**.*...'']"
  by code_simp

lemma sample_result:
  "LineToPattern conv sample_line 100 100 =
     Inr (Inr (MakeLife105 (- 47) (- 50) (xorData (bytes '' \"GET / HTTP/1.1\" 200 100'')),
               \<lparr>sec = 63804508069, nsec = 0, loc = Some 0\<rparr>))"
  by (simp add: LineToPattern_def sample_fields sample_not_blank sample_bracket sample_time
      sample_xy index_def and_then_def slice_from_def)

lemma IPToXY_returns: "\<exists>x y. IPToXY conv addr w h = Inr (x, y)"
  using IPToXY_None [of addr conv w h] IPToXY_Some [of addr _ conv w h]
  by (cases "ParseIP addr") auto

lemma one_field: "SplitN ''10.0.0.1'' CHR '' '' 4 = [''10.0.0.1'']"
  by code_simp

lemma short_line_panics: "LineToPattern conv ''10.0.0.1'' w h = Inl (IndexOutOfRange 3 1)"
proof -
  obtain x y where "IPToXY conv ''10.0.0.1'' w h = Inr (x, y)"
    using IPToXY_returns by blast
  then show ?thesis
    by (simp add: LineToPattern_def one_field sample_not_blank index_def and_then_def)
qed

lemma main_loop_single:
  assumes "LineToPattern conv line (Columns cfg) (Rows cfg) = Inr (Inr (p, t2))"
  shows "main_loop conv cfg send t1 i [line] =
     ((if t1 \<noteq> noTime then [Delaying (delay conv t1 t2 (Speed cfg))] else [])
        @ Pattern p # (if send i then [] else [SendFailed]), None)"
  using assms by simp

lemmas delay_eval = delay_def delay_quotient_def Sub_def Microseconds_def go_quot_def f64_eval
  f64_to_int64_def wrap64_def t47_def t49_def t50_def t54_def

lemma sample_times:
  "time_Parse ''20/Nov/2022:02:27:47 +0000'' = Some t47"
  "time_Parse ''20/Nov/2022:02:27:49 +0000'' = Some t49"
  "time_Parse ''20/Nov/2022:02:27:50 +0000'' = Some t50"
  "time_Parse ''20/Nov/2022:02:27:54 +0000'' = Some t54"
  unfolding t47_def t49_def t50_def t54_def by code_simp+


section \<open>Two more lines, step by step\<close>

lemma sample2_fields:
  "SplitN sample_line2 CHR '' '' 4 =
     [''10.0.0.1'', ''-'', ''-'', ''[20/Nov/2022:02:27:51 +0000] \"GET / HTTP/1.1\" 200 100'']"
  unfolding sample_line2_def by code_simp

lemma sample2_bracket:
  "SplitN ''[20/Nov/2022:02:27:51 +0000] \"GET / HTTP/1.1\" 200 100'' CHR '']'' 2 =
     [''[20/Nov/2022:02:27:51 +0000'', '' \"GET / HTTP/1.1\" 200 100'']"
  by code_simp

lemma sample2_time: "time_Parse ''20/Nov/2022:02:27:51 +0000'' = Some t51"
  unfolding t51_def by code_simp

lemma sample2_result:
  "LineToPattern conv sample_line2 100 100 =
     Inr (Inr (MakeLife105 (- 47) (- 50) (xorData (bytes '' \"GET / HTTP/1.1\" 200 100'')), t51))"
  by (simp add: LineToPattern_def sample2_fields sample_not_blank sample2_bracket sample2_time
      sample_xy index_def and_then_def slice_from_def)

lemma no_address_fields:
  "SplitN no_address_line CHR '' '' 4 =
     [''-'', ''-'', ''-'', ''[20/Nov/2022:02:27:50 +0000] \"GET / HTTP/1.1\" 200 100'']"
  unfolding no_address_line_def by code_simp

lemma no_address_result: "LineToPattern conv no_address_line w h = Inr (Inl NoClientIP)"
  by (simp add: LineToPattern_def no_address_fields index_def and_then_def)

section \<open>A zone identifier\<close>

lemma parseIPv4Fields_chars:
  "parseIPv4Fields s v n fs = Some r \<Longrightarrow> c \<in> set s \<Longrightarrow> digit_val c \<noteq> None \<or> c = CHR ''.''"
  by (induction s v n fs rule: parseIPv4Fields.induct)
     (auto split: option.splits if_splits)

lemma percent_no_digit: "digit_val CHR ''%'' = None"
  by (simp add: digit_val_def)

lemma parseIPv4_zone: "CHR ''%'' \<in> set s \<Longrightarrow> parseIPv4 s = None"
  using parseIPv4Fields_chars [of s 0 0 "[]" _ "CHR ''%''"] percent_no_digit
  unfolding parseIPv4_def by (cases "parseIPv4Fields s 0 0 []") auto

lemma ParseIP_scan_zone: "CHR ''%'' \<in> set s \<Longrightarrow> ParseIP_scan s cs = None"
  by (induction cs) (simp_all add: parseIPv4_zone parseIPv6_def)

lemma ParseIP_zone: "CHR ''%'' \<in> set s \<Longrightarrow> ParseIP s = None"
  unfolding ParseIP_def by (rule ParseIP_scan_zone)

section \<open>The coordinate comes from the last four bytes\<close>

lemma IPToXY_last_four:
  assumes "ParseIP a = Some ipa" "ParseIP b = Some ipb" "drop 12 ipa = drop 12 ipb"
  shows "IPToXY conv a w h = IPToXY conv b w h"
proof -
  have la: "length ipa = 16" and lb: "length ipb = 16"
    using assms length_ParseIP by blast+
  have "ipa ! (12 + k) = ipb ! (12 + k)" for k
  proof -
    have "ipa ! (12 + k) = drop 12 ipa ! k" using la by (simp add: nth_drop)
    also have "\<dots> = drop 12 ipb ! k" using assms(3) by simp
    also have "\<dots> = ipb ! (12 + k)" using lb by (simp add: nth_drop)
    finally show ?thesis .
  qed
  from this [of 0] this [of 1] this [of 2] this [of 3]
  have "ipa ! 12 = ipb ! 12" "ipa ! 13 = ipb ! 13" "ipa ! 14 = ipb ! 14" "ipa ! 15 = ipb ! 15"
    by simp_all
  then show ?thesis using assms by (simp add: IPToXY_Some)
qed

lemma length_concat_group_bytes: "length (concat (map group_bytes gs)) = 2 * length gs"
  by (induction gs) (simp_all add: group_bytes_def)

lemma drop_prefix_quad: "drop 12 (v4InV6Prefix @ quad_bytes a b c d) = quad_bytes a b c d"
  by (simp add: v4InV6Prefix_def)

lemma drop_mixed_bytes:
  assumes "length pre + length post \<le> 5"
  shows "drop 12 (ipv6_mixed_bytes pre post a b c d) = quad_bytes a b c d"
proof -
  have "length (concat (map group_bytes pre) @ replicate (12 - 2 * (length pre + length post)) 0
       @ concat (map group_bytes post)) = 12"
    using assms by (simp add: length_concat_group_bytes)
  then show ?thesis
    unfolding ipv6_mixed_bytes_def
    by (metis append.assoc append_eq_conv_conj)
qed

lemma drop_mixed_full:
  assumes "length gs = 6"
  shows "drop 12 (concat (map group_bytes gs) @ quad_bytes a b c d) = quad_bytes a b c d"
  using assms by (simp add: length_concat_group_bytes)

lemma IPToXY_mixed_full:
  assumes "list_all wf_group gs" "length gs = 6"
    and "wf_octet a" "wf_octet b" "wf_octet c" "wf_octet d"
  shows "IPToXY conv (join_groups gs @ CHR '':'' # dotted_quad a b c d) w h =
     IPToXY conv (dotted_quad a b c d) w h"
  using ParseIP_mixed_full [OF assms] ParseIP_dotted_quad [OF assms(3-6)]
  by (rule IPToXY_last_four) (simp only: drop_mixed_full [OF assms(2)] drop_prefix_quad)

lemma IPToXY_mixed_compressed:
  assumes "list_all wf_group pre" "list_all wf_group post" "length pre + length post \<le> 5"
    and "wf_octet a" "wf_octet b" "wf_octet c" "wf_octet d"
  shows "IPToXY conv (join_groups pre @ ''::'' @ mixed_tail post (dotted_quad a b c d)) w h =
     IPToXY conv (dotted_quad a b c d) w h"
  using ParseIP_mixed_compressed [OF assms] ParseIP_dotted_quad [OF assms(4-7)]
  by (rule IPToXY_last_four) (simp only: drop_mixed_bytes [OF assms(3)] drop_prefix_quad)


section \<open>The claims about the fold and the rendering\<close>

text \<open>
  Claim C5. The fold of a payload equals the fold of the payload with every double-quote
  byte removed: a quote byte leaves the index and every byte of the array as they are,
  from any state of the loop.
\<close>

theorem quotes_do_not_count:
  "xor_loop data idx (quote # bs) = xor_loop data idx bs
   \<and> xor_loop data idx p = xor_loop data idx (filter (\<lambda>b. b \<noteq> quote) p)
   \<and> xorData p = xorData (filter (\<lambda>b. b \<noteq> quote) p)"
  using xor_loop_unquoted [of data idx p] xor_loop_unquoted [of "replicate 8 0" 0 p]
  by (simp add: xorData_def unquoted_def)

text \<open>
  Claim C6. The fold returns exactly 8 bytes; byte \<open>j\<close> is the XOR, starting from zero,
  of the non-quote payload bytes whose position among the non-quote bytes is \<open>j\<close> modulo
  8; the empty payload gives 8 zero bytes.
\<close>

theorem xorData_is_fingerprint:
  "length (xorData p) = 8
   \<and> (\<forall>j<8. xorData p ! j = fingerprint_spec p j)
   \<and> xorData [] = replicate 8 0"
  by (simp add: length_xorData xorData_nth) (simp add: xorData_def)

text \<open>The fold of a payload with a quote in it, and byte 3 of its fingerprint.\<close>

theorem xorData_is_fingerprint_witness:
  "length (xorData (bytes ''G\"ET / HTTP/1.1'')) = 8
   \<and> xorData (bytes ''G\"ET / HTTP/1.1'') ! 3 = fingerprint_spec (bytes ''G\"ET / HTTP/1.1'') 3
   \<and> fingerprint_spec (bytes ''G\"ET / HTTP/1.1'') 3 = 0x11"
proof -
  have "fingerprint_spec (bytes ''G\"ET / HTTP/1.1'') 3 = 0x11" by code_simp
  then show ?thesis using xorData_is_fingerprint [of "bytes ''G\"ET / HTTP/1.1''"] by simp
qed

text \<open>
  Claim C7. For every coordinate and every 8-byte array, \<^const>\<open>MakeLife105\<close> returns the
  four header lines and then 8 rows of 8 characters, each a star or a dot, character \<open>k\<close>
  of row \<open>i\<close> a star exactly when bit \<open>7 - k\<close> of byte \<open>i\<close> is set. The last header line
  is \<^verbatim>\<open>#P\<close>, a space, the text of \<open>x\<close>, a space and the text of \<open>y\<close>, and these texts
  are the decimal numerals of \<open>x\<close> and \<open>y\<close>: a text reads as the integer \<open>x\<close>, in the
  sense of \<^const>\<open>read_decimal\<close>, exactly when it is the text printed for \<open>x\<close>.
\<close>

theorem MakeLife105_shape:
  assumes "length data = 8"
  shows "length (MakeLife105 x y data) = 12
    \<and> take 4 (MakeLife105 x y data) =
        [''#Life 1.05'', ''#D log2life ouput'', ''#N'', ''#P '' @ itoa x @ '' '' @ itoa y]
    \<and> read_decimal (itoa x) = Some x \<and> read_decimal (itoa y) = Some y
    \<and> (read_decimal s = Some x) = (s = itoa x)
    \<and> (read_decimal s = Some y) = (s = itoa y)
    \<and> (\<forall>i<8. length (MakeLife105 x y data ! (4 + i)) = 8
          \<and> set (MakeLife105 x y data ! (4 + i)) \<subseteq> {CHR ''*'', CHR ''.''}
          \<and> (\<forall>k<8. MakeLife105 x y data ! (4 + i) ! k =
                (if bit (data ! i) (7 - k) then CHR ''*'' else CHR ''.'')))"
proof -
  have "length (MakeLife105 x y data) = 12"
    using assms by (simp add: MakeLife105_def header_def)
  moreover have "take 4 (MakeLife105 x y data) =
        [''#Life 1.05'', ''#D log2life ouput'', ''#N'', ''#P '' @ itoa x @ '' '' @ itoa y]"
    by (simp add: MakeLife105_def header_def)
  moreover have "(read_decimal s = Some n) = (s = itoa n)" for n
    using read_decimal_itoa [of n] read_decimal_unique [of s n] by blast
  moreover have "\<forall>i<8. length (MakeLife105 x y data ! (4 + i)) = 8
          \<and> set (MakeLife105 x y data ! (4 + i)) \<subseteq> {CHR ''*'', CHR ''.''}
          \<and> (\<forall>k<8. MakeLife105 x y data ! (4 + i) ! k =
                (if bit (data ! i) (7 - k) then CHR ''*'' else CHR ''.''))"
    using assms set_bits_loop
    by (simp add: nth_MakeLife105_row length_bits_loop nth_bits_loop cell_def)
  ultimately show ?thesis using read_decimal_itoa by blast
qed

text \<open>The pattern of one array, line by line, and the numeral of its abscissa.\<close>

theorem MakeLife105_shape_witness:
  "length [19, 21, 123, 17, 1, 17, 72, 84 :: byte] = 8
   \<and> MakeLife105 (-40) 3 [19, 21, 123, 17, 1, 17, 72, 84] =
      [''#Life 1.05'', ''#D log2life ouput'', ''#N'', ''#P -40 3'',
       ''...*..**'', ''...*.*.*'', ''.****.**'', ''...*...*'',
       ''.......*'', ''...*...*'', ''.*..*...'', ''.*.*.*..'']
   \<and> length (MakeLife105 (-40) 3 [19, 21, 123, 17, 1, 17, 72, 84]) = 12
   \<and> length (MakeLife105 (-40) 3 [19, 21, 123, 17, 1, 17, 72, 84] ! (4 + 2)) = 8
   \<and> MakeLife105 (-40) 3 [19, 21, 123, 17, 1, 17, 72, 84] ! (4 + 2) ! 1 =
       (if bit ([19, 21, 123, 17, 1, 17, 72, 84 :: byte] ! 2) (7 - 1) then CHR ''*'' else CHR ''.'')
   \<and> read_decimal ''-40'' = Some (- 40) \<and> itoa (- 40) = ''-40''
   \<and> read_decimal ''3'' = Some 3 \<and> itoa 3 = ''3''
   \<and> read_decimal ''-040'' = None \<and> read_decimal ''+3'' = None \<and> read_decimal '''' = None"
proof -
  have len: "length [19, 21, 123, 17, 1, 17, 72, 84 :: byte] = 8" by simp
  have ev: "MakeLife105 (-40) 3 [19, 21, 123, 17, 1, 17, 72, 84] =
      [''#Life 1.05'', ''#D log2life ouput'', ''#N'', ''#P -40 3'',
       ''...*..**'', ''...*.*.*'', ''.****.**'', ''...*...*'',
       ''.......*'', ''...*...*'', ''.*..*...'', ''.*.*.*..'']"
    by code_simp
  have rd: "read_decimal ''-40'' = Some (- 40)" "read_decimal ''3'' = Some 3"
    "read_decimal ''-040'' = None" "read_decimal ''+3'' = None" "read_decimal '''' = None"
    by (simp_all add: read_decimal_def read_nat_def digit_of_def)
  note w = MakeLife105_shape [OF len, where x = "- 40" and y = 3 and s = "''-40''"]
  note v = MakeLife105_shape [OF len, where x = "- 40" and y = 3 and s = "''3''"]
  from w have
    "length (MakeLife105 (-40) 3 [19, 21, 123, 17, 1, 17, 72, 84]) = 12"
    "length (MakeLife105 (-40) 3 [19, 21, 123, 17, 1, 17, 72, 84] ! (4 + 2)) = 8"
    "MakeLife105 (-40) 3 [19, 21, 123, 17, 1, 17, 72, 84] ! (4 + 2) ! 1 =
       (if bit ([19, 21, 123, 17, 1, 17, 72, 84 :: byte] ! 2) (7 - 1) then CHR ''*'' else CHR ''.'')"
    by (blast, (elim conjE allE [of _ 2] allE [of _ 1], simp)+)
  moreover from w rd(1) have "itoa (- 40) = ''-40''" by simp
  moreover from v rd(2) have "itoa 3 = ''3''" by simp
  ultimately show ?thesis using len ev rd by blast
qed


text \<open>
  Claim C10. When every payload byte is below 128, every byte of the fingerprint is below
  128, and the first character of each of the 8 rows is a dot.
\<close>

theorem seven_bit_left_column_dead:
  assumes "\<forall>b\<in>set p. b < 128"
  shows "(\<forall>j<8. xorData p ! j < 128)
     \<and> (\<forall>i<8. MakeLife105 x y (xorData p) ! (4 + i) ! 0 = CHR ''.'')"
proof -
  have "\<forall>d\<in>set (replicate 8 (0 :: byte)). \<not> bit d 7" by simp
  moreover have "\<forall>b\<in>set p. \<not> bit b 7" using assms by (simp add: b7)
  ultimately have all: "\<forall>d\<in>set (xorData p). \<not> bit d 7"
    unfolding xorData_def by (rule xor_loop_bit7)
  have nth: "\<not> bit (xorData p ! j) 7" if "j < 8" for j
    using all that nth_mem [of j "xorData p"] by (simp add: length_xorData)
  have "MakeLife105 x y (xorData p) ! (4 + i) ! 0 = CHR ''.''" if "i < 8" for i
    using that nth [of i]
    by (simp add: nth_MakeLife105_row length_xorData nth_bits_loop cell_def)
  then show ?thesis using nth by (simp add: b7)
qed

text \<open>A seven-bit payload, and row 2 of its pattern.\<close>

theorem seven_bit_left_column_dead_witness:
  "list_all (\<lambda>b. b < 128) (bytes ''GET / HTTP/1.1'')
   \<and> xorData (bytes ''GET / HTTP/1.1'') ! 2 < 128
   \<and> MakeLife105 0 0 (xorData (bytes ''GET / HTTP/1.1'')) ! (4 + 2) ! 0 = CHR ''.''
   \<and> MakeLife105 0 0 (xorData (bytes ''GET / HTTP/1.1'')) ! (4 + 2) = ''.****.**''"
proof -
  have a: "list_all (\<lambda>b. b < 128) (bytes ''GET / HTTP/1.1'')" by code_simp
  then have h: "\<forall>b\<in>set (bytes ''GET / HTTP/1.1''). b < 128" by (simp only: list_all_iff)
  have r: "MakeLife105 0 0 (xorData (bytes ''GET / HTTP/1.1'')) ! (4 + 2) = ''.****.**''"
    by code_simp
  show ?thesis
    using a r seven_bit_left_column_dead [OF h, of 0 0] by simp
qed



section \<open>The claims about the coordinates\<close>

text \<open>
  Claim C2 says that for every valid dotted address and positive width and height the
  coordinate lies in the half-open intervals from \<open>-W/2\<close> to \<open>W/2\<close> and from \<open>-H/2\<close> to
  \<open>H/2\<close>, the address bytes 255.255 included. The code divides by 65535, so the bytes
  255.255 scale to the full width: in a world of 100 by 100 the address 255.255.0.0 has
  \<open>x = 50\<close>, which is not below \<open>100 / 2\<close>; in a world of 255 by 255 the address
  255.254.0.0 has \<open>x = 127\<close>, which is not below \<open>255 / 2 = 127\<close>.
\<close>

theorem IPToXY_half_open_counterexample:
  "IPToXY conv_amd64 ''255.255.0.0'' 100 100 = Inr (50, - 50)
   \<and> \<not> (50 :: int) < go_quot 100 2
   \<and> IPToXY conv_amd64 ''255.254.0.0'' 255 255 = Inr (127, - 127)
   \<and> \<not> (127 :: int) < go_quot 255 2"
  by (simp add: IPToXY_def ParseIP_255 ParseIP_254 index_16 and_then_def scale_examples go_quot_def)


text \<open>
  Claim C2 as amended. For every address that parses and every width and height from 1 to
  \<open>2^53\<close> (the integers that \<^verbatim>\<open>float64\<close> holds exactly), on every platform, the coordinate
  lies in the closed intervals from \<open>-(W/2)\<close> to \<open>W - W/2\<close> and from \<open>-(H/2)\<close> to
  \<open>H - H/2\<close>, the divisions truncating.
\<close>

theorem IPToXY_in_closed_range:
  assumes "ParseIP addr = Some ip" "0 < w" "w \<le> 2 ^ 53" "0 < h" "h \<le> 2 ^ 53"
  shows "\<exists>x y. IPToXY conv addr w h = Inr (x, y)
           \<and> - (w div 2) \<le> x \<and> x \<le> w - w div 2
           \<and> - (h div 2) \<le> y \<and> y \<le> h - h div 2"
  using IPToXY_Some [OF assms(1), of conv w h]
    scale_bounds [OF assms(2,3), of conv "ip ! 12" "ip ! 13"]
    scale_bounds [OF assms(4,5), of conv "ip ! 14" "ip ! 15"]
  by simp


text \<open>The address 255.255.0.0 in a world of 100 by 100 reaches the upper end.\<close>

theorem IPToXY_in_closed_range_witness:
  "ParseIP ''255.255.0.0'' = Some [0,0,0,0,0,0,0,0,0,0,255,255,255,255,0,0]
   \<and> (0 :: int) < 100 \<and> (100 :: int) \<le> 2 ^ 53
   \<and> IPToXY conv_amd64 ''255.255.0.0'' 100 100 = Inr (50, - 50)
   \<and> - (100 div 2) \<le> (50 :: int) \<and> (50 :: int) \<le> 100 - 100 div 2
   \<and> - (100 div 2) \<le> (- 50 :: int) \<and> (- 50 :: int) \<le> 100 - 100 div 2"
proof -
  have w: "(0 :: int) < 100" "(100 :: int) \<le> 2 ^ 53" by simp_all
  have e: "IPToXY conv_amd64 ''255.255.0.0'' 100 100 = Inr (50, - 50)"
    by (simp add: IPToXY_def ParseIP_255 index_16 and_then_def scale_examples)
  from IPToXY_in_closed_range [OF ParseIP_255 w w, of conv_amd64]
  have "- (100 div 2) \<le> (50 :: int) \<and> (50 :: int) \<le> 100 - 100 div 2
   \<and> - (100 div 2) \<le> (- 50 :: int) \<and> (- 50 :: int) \<le> 100 - 100 div 2"
    unfolding e by simp
  with ParseIP_255 w e show ?thesis by simp
qed


text \<open>
  Claim C9. The mapping is total: \<^verbatim>\<open>net.ParseIP\<close> fails, and the coordinate is the origin,
  or it returns 16 bytes, so that the indices 12 to 15 are in range and the coordinate
  comes from these four bytes; two addresses with the same last four bytes have the same
  coordinate. Every well-formed IPv6 text parses, to the bytes that the text denotes:
  eight groups of one to four hexadecimal digits joined by colons; groups before and
  after one double colon, at most seven in all; and both forms with a dotted quad of four
  decimal numbers up to 255, written without a leading zero, in the place of the last two
  groups, which is mapped to the coordinate of the dotted quad alone. A zone identifier
  is not part of the address text: a text with a percent sign is rejected, as
  \<^verbatim>\<open>net.ParseIP\<close> does, and maps to the origin.
\<close>

theorem ParseIP_16_bytes_IPToXY_total:
  "((ParseIP addr = None \<and> IPToXY conv addr w h = Inr (0, 0))
    \<or> (\<exists>ip. ParseIP addr = Some ip \<and> length ip = 16
          \<and> IPToXY conv addr w h =
              Inr (scale conv (ip ! 12) (ip ! 13) w, scale conv (ip ! 14) (ip ! 15) h)))
   \<and> (ParseIP a = Some ipa \<longrightarrow> ParseIP b = Some ipb \<longrightarrow> drop 12 ipa = drop 12 ipb
        \<longrightarrow> IPToXY conv a w h = IPToXY conv b w h)
   \<and> ParseIP ''2001:db8::a00:1'' = Some [0x20,1,0x0d,0xb8,0,0,0,0,0,0,0,0,10,0,0,1]
   \<and> (list_all wf_group gs \<and> length gs = 8 \<longrightarrow>
        ParseIP (join_groups gs) = Some (concat (map group_bytes gs)))
   \<and> (list_all wf_group pre \<and> list_all wf_group post \<and> length pre + length post \<le> 7 \<longrightarrow>
        ParseIP (join_groups pre @ ''::'' @ join_groups post) = Some (ipv6_bytes pre post))
   \<and> (list_all wf_group hs \<and> length hs = 6
        \<and> wf_octet o1 \<and> wf_octet o2 \<and> wf_octet o3 \<and> wf_octet o4 \<longrightarrow>
        ParseIP (join_groups hs @ CHR '':'' # dotted_quad o1 o2 o3 o4) =
          Some (concat (map group_bytes hs) @ quad_bytes o1 o2 o3 o4)
        \<and> IPToXY conv (join_groups hs @ CHR '':'' # dotted_quad o1 o2 o3 o4) w h =
            IPToXY conv (dotted_quad o1 o2 o3 o4) w h)
   \<and> (list_all wf_group before \<and> list_all wf_group after \<and> length before + length after \<le> 5
        \<and> wf_octet o1 \<and> wf_octet o2 \<and> wf_octet o3 \<and> wf_octet o4 \<longrightarrow>
        ParseIP (join_groups before @ ''::'' @ mixed_tail after (dotted_quad o1 o2 o3 o4)) =
          Some (ipv6_mixed_bytes before after o1 o2 o3 o4)
        \<and> IPToXY conv (join_groups before @ ''::'' @ mixed_tail after (dotted_quad o1 o2 o3 o4)) w h =
            IPToXY conv (dotted_quad o1 o2 o3 o4) w h)
   \<and> (wf_octet o1 \<and> wf_octet o2 \<and> wf_octet o3 \<and> wf_octet o4 \<longrightarrow>
        ParseIP (dotted_quad o1 o2 o3 o4) = Some (v4InV6Prefix @ quad_bytes o1 o2 o3 o4))
   \<and> (CHR ''%'' \<in> set zoned \<longrightarrow>
        ParseIP zoned = None \<and> IPToXY conv zoned w h = Inr (0, 0))"
proof -
  have 1: "(ParseIP addr = None \<and> IPToXY conv addr w h = Inr (0, 0))
    \<or> (\<exists>ip. ParseIP addr = Some ip \<and> length ip = 16
          \<and> IPToXY conv addr w h =
              Inr (scale conv (ip ! 12) (ip ! 13) w, scale conv (ip ! 14) (ip ! 15) h))"
    using IPToXY_None [of addr conv w h] IPToXY_Some [of addr _ conv w h] length_ParseIP [of addr]
    by (cases "ParseIP addr") auto
  have 2: "ParseIP a = Some ipa \<longrightarrow> ParseIP b = Some ipb \<longrightarrow> drop 12 ipa = drop 12 ipb
        \<longrightarrow> IPToXY conv a w h = IPToXY conv b w h"
    using IPToXY_last_four [of a ipa b ipb conv w h] by blast
  have 3: "list_all wf_group gs \<and> length gs = 8 \<longrightarrow>
        ParseIP (join_groups gs) = Some (concat (map group_bytes gs))"
    using ParseIP_full [of gs] by blast
  have 4: "list_all wf_group pre \<and> list_all wf_group post \<and> length pre + length post \<le> 7 \<longrightarrow>
        ParseIP (join_groups pre @ ''::'' @ join_groups post) = Some (ipv6_bytes pre post)"
    using ParseIP_compressed [of pre post] by blast
  have 5: "list_all wf_group hs \<and> length hs = 6
        \<and> wf_octet o1 \<and> wf_octet o2 \<and> wf_octet o3 \<and> wf_octet o4 \<longrightarrow>
        ParseIP (join_groups hs @ CHR '':'' # dotted_quad o1 o2 o3 o4) =
          Some (concat (map group_bytes hs) @ quad_bytes o1 o2 o3 o4)
        \<and> IPToXY conv (join_groups hs @ CHR '':'' # dotted_quad o1 o2 o3 o4) w h =
            IPToXY conv (dotted_quad o1 o2 o3 o4) w h"
    using ParseIP_mixed_full [of hs o1 o2 o3 o4] IPToXY_mixed_full [of hs o1 o2 o3 o4 conv w h]
    by blast
  have 6: "list_all wf_group before \<and> list_all wf_group after \<and> length before + length after \<le> 5
        \<and> wf_octet o1 \<and> wf_octet o2 \<and> wf_octet o3 \<and> wf_octet o4 \<longrightarrow>
        ParseIP (join_groups before @ ''::'' @ mixed_tail after (dotted_quad o1 o2 o3 o4)) =
          Some (ipv6_mixed_bytes before after o1 o2 o3 o4)
        \<and> IPToXY conv (join_groups before @ ''::'' @ mixed_tail after (dotted_quad o1 o2 o3 o4)) w h =
            IPToXY conv (dotted_quad o1 o2 o3 o4) w h"
    using ParseIP_mixed_compressed [of before after o1 o2 o3 o4]
      IPToXY_mixed_compressed [of before after o1 o2 o3 o4 conv w h]
    by blast
  have 7: "wf_octet o1 \<and> wf_octet o2 \<and> wf_octet o3 \<and> wf_octet o4 \<longrightarrow>
        ParseIP (dotted_quad o1 o2 o3 o4) = Some (v4InV6Prefix @ quad_bytes o1 o2 o3 o4)"
    using ParseIP_dotted_quad [of o1 o2 o3 o4] by blast
  have 8: "CHR ''%'' \<in> set zoned \<longrightarrow>
        ParseIP zoned = None \<and> IPToXY conv zoned w h = Inr (0, 0)"
    using ParseIP_zone [of zoned] IPToXY_None [of zoned conv w h] by blast
  show ?thesis using 1 2 ParseIP_v6 3 4 5 6 7 8 by (intro conjI)
qed


text \<open>
  The address 2001:db8::a00:1 written in full and with a double colon, the address
  10.0.0.1 alone and as the tail of an IPv6 text, and a link-local address with a zone.
\<close>

theorem ParseIP_16_bytes_IPToXY_total_witness:
  "ParseIP ''2001:db8::a00:1'' = Some [0x20,1,0x0d,0xb8,0,0,0,0,0,0,0,0,10,0,0,1]
   \<and> ParseIP ''10.0.0.1'' = Some [0,0,0,0,0,0,0,0,0,0,255,255,10,0,0,1]
   \<and> drop 12 [0x20,1,0x0d,0xb8,0,0,0,0,0,0,0,0,10,0,0,1 :: byte]
       = drop 12 [0,0,0,0,0,0,0,0,0,0,255,255,10,0,0,1]
   \<and> IPToXY conv_amd64 ''2001:db8::a00:1'' 100 100 = IPToXY conv_amd64 ''10.0.0.1'' 100 100
   \<and> IPToXY conv_amd64 ''10.0.0.1'' 100 100 = Inr (- 47, - 50)
   \<and> list_all wf_group [''2001'', ''db8'', ''0'', ''0'', ''0'', ''0'', ''a00'', ''1'']
   \<and> ParseIP ''2001:db8:0:0:0:0:a00:1'' = Some [0x20,1,0x0d,0xb8,0,0,0,0,0,0,0,0,10,0,0,1]
   \<and> list_all wf_group [''2001'', ''db8''] \<and> list_all wf_group [''a00'', ''1'']
   \<and> join_groups [''2001'', ''db8''] @ ''::'' @ join_groups [''a00'', ''1''] = ''2001:db8::a00:1''
   \<and> ipv6_bytes [''2001'', ''db8''] [''a00'', ''1''] = [0x20,1,0x0d,0xb8,0,0,0,0,0,0,0,0,10,0,0,1]
   \<and> list_all wf_group [''0'', ''0'', ''0'', ''0'', ''0'', ''FFFF'']
   \<and> wf_octet ''10'' \<and> wf_octet ''0'' \<and> wf_octet ''1''
   \<and> ParseIP ''0:0:0:0:0:FFFF:10.0.0.1'' = Some [0,0,0,0,0,0,0,0,0,0,255,255,10,0,0,1]
   \<and> IPToXY conv_amd64 ''0:0:0:0:0:FFFF:10.0.0.1'' 100 100 = Inr (- 47, - 50)
   \<and> ParseIP ''::ffff:10.0.0.1'' = Some [0,0,0,0,0,0,0,0,0,0,255,255,10,0,0,1]
   \<and> IPToXY conv_amd64 ''::ffff:10.0.0.1'' 100 100 = Inr (- 47, - 50)
   \<and> ParseIP ''64:ff9b::10.0.0.1'' = Some [0,0x64,0xff,0x9b,0,0,0,0,0,0,0,0,10,0,0,1]
   \<and> CHR ''%'' \<in> set ''fe80::1%eth0''
   \<and> ParseIP ''fe80::1%eth0'' = None
   \<and> IPToXY conv_amd64 ''fe80::1%eth0'' 100 100 = Inr (0, 0)"
proof -
  let ?full = "[''2001'', ''db8'', ''0'', ''0'', ''0'', ''0'', ''a00'', ''1'']"
  let ?six = "[''0'', ''0'', ''0'', ''0'', ''0'', ''FFFF'']"
  note defs = wf_group_def hex_digit_def hex_digits_def hex_digits_upper_def
  note vals = group_bytes_def group_value_def hex_digit_value_def hex_digits_def
    hex_digits_upper_def
  note octs = wf_octet_def octet_value_def read_nat_def digit_of_def quad_bytes_def
  have d: "drop 12 [0x20,1,0x0d,0xb8,0,0,0,0,0,0,0,0,10,0,0,1 :: byte]
       = drop 12 [0,0,0,0,0,0,0,0,0,0,255,255,10,0,0,1]" by simp
  have e: "IPToXY conv_amd64 ''10.0.0.1'' 100 100 = Inr (- 47, - 50)"
    by (simp add: IPToXY_def ParseIP_10 index_16 and_then_def scale_examples)
  have g8: "list_all wf_group ?full \<and> length ?full = 8" by (simp add: defs)
  have g2: "list_all wf_group [''2001'', ''db8''] \<and> list_all wf_group [''a00'', ''1'']
      \<and> length [''2001'', ''db8''] + length [''a00'', ''1''] \<le> 7" by (simp add: defs)
  have o: "wf_octet ''10''" "wf_octet ''0''" "wf_octet ''1''" by (simp_all add: octs)
  have g6: "list_all wf_group ?six \<and> length ?six = 6
      \<and> wf_octet ''10'' \<and> wf_octet ''0'' \<and> wf_octet ''0'' \<and> wf_octet ''1''"
    using o by (simp add: defs)
  have g1: "list_all wf_group [] \<and> list_all wf_group [''ffff''] \<and> length [] + length [''ffff''] \<le> 5
      \<and> wf_octet ''10'' \<and> wf_octet ''0'' \<and> wf_octet ''0'' \<and> wf_octet ''1''"
    using o by (simp add: defs)
  have g3: "list_all wf_group [''64'', ''ff9b''] \<and> list_all wf_group [] \<and> length [''64'', ''ff9b''] + length [] \<le> 5
      \<and> wf_octet ''10'' \<and> wf_octet ''0'' \<and> wf_octet ''0'' \<and> wf_octet ''1''"
    using o by (simp add: defs)
  have z: "CHR ''%'' \<in> set ''fe80::1%eth0''" by simp
  have r10: "replicate 10 x = [x, x, x, x, x, x, x, x, x, x]" for x :: byte
    by (simp add: numeral_eq_Suc)
  have b8: "concat (map group_bytes ?full) = [0x20,1,0x0d,0xb8,0,0,0,0,0,0,0,0,10,0,0,1]"
    by (simp add: vals)
  have b2: "ipv6_bytes [''2001'', ''db8''] [''a00'', ''1''] =
      [0x20,1,0x0d,0xb8,0,0,0,0,0,0,0,0,10,0,0,1]"
    by (simp add: ipv6_bytes_def vals replicate_8)
  have q: "quad_bytes ''10'' ''0'' ''0'' ''1'' = [10, 0, 0, 1]" by (simp add: octs)
  have b6: "concat (map group_bytes ?six) @ quad_bytes ''10'' ''0'' ''0'' ''1'' =
      [0,0,0,0,0,0,0,0,0,0,255,255,10,0,0,1]"
    unfolding q by (simp add: vals)
  have b1: "ipv6_mixed_bytes [] [''ffff''] ''10'' ''0'' ''0'' ''1'' =
      [0,0,0,0,0,0,0,0,0,0,255,255,10,0,0,1]"
    unfolding ipv6_mixed_bytes_def q by (simp add: vals r10)
  have b3: "ipv6_mixed_bytes [''64'', ''ff9b''] [] ''10'' ''0'' ''0'' ''1'' =
      [0,0x64,0xff,0x9b,0,0,0,0,0,0,0,0,10,0,0,1]"
    unfolding ipv6_mixed_bytes_def q by (simp add: vals replicate_8)
  have j8: "join_groups ?full = ''2001:db8:0:0:0:0:a00:1''" by simp
  have j2: "join_groups [''2001'', ''db8''] @ ''::'' @ join_groups [''a00'', ''1''] = ''2001:db8::a00:1''"
    by simp
  have j6: "join_groups ?six @ CHR '':'' # dotted_quad ''10'' ''0'' ''0'' ''1'' = ''0:0:0:0:0:FFFF:10.0.0.1''"
    by (simp add: dotted_quad_def)
  have j1: "join_groups [] @ ''::'' @ mixed_tail [''ffff''] (dotted_quad ''10'' ''0'' ''0'' ''1'') =
      ''::ffff:10.0.0.1''"
    by (simp add: dotted_quad_def mixed_tail_def)
  have j3: "join_groups [''64'', ''ff9b''] @ ''::'' @ mixed_tail [] (dotted_quad ''10'' ''0'' ''0'' ''1'') =
      ''64:ff9b::10.0.0.1''"
    by (simp add: dotted_quad_def mixed_tail_def)
  have j4: "dotted_quad ''10'' ''0'' ''0'' ''1'' = ''10.0.0.1''" by (simp add: dotted_quad_def)
  note w = ParseIP_16_bytes_IPToXY_total [where conv = conv_amd64 and w = 100 and h = 100
      and a = "''2001:db8::a00:1''" and ipa = "[0x20,1,0x0d,0xb8,0,0,0,0,0,0,0,0,10,0,0,1]"
      and b = "''10.0.0.1''" and ipb = "[0,0,0,0,0,0,0,0,0,0,255,255,10,0,0,1]"
      and gs = ?full and pre = "[''2001'', ''db8'']" and post = "[''a00'', ''1'']"
      and hs = ?six and ?o1.0 = "''10''" and ?o2.0 = "''0''" and ?o3.0 = "''0''" and ?o4.0 = "''1''"
      and before = "[]" and after = "[''ffff'']" and zoned = "''fe80::1%eth0''"]
  note v = ParseIP_16_bytes_IPToXY_total [where conv = conv_amd64 and w = 100 and h = 100
      and ?o1.0 = "''10''" and ?o2.0 = "''0''" and ?o3.0 = "''0''" and ?o4.0 = "''1''"
      and before = "[''64'', ''ff9b'']" and after = "[]"]
  note w3 = w [THEN conjunct2, THEN conjunct2]
  have v6: "ParseIP ''2001:db8::a00:1'' = Some [0x20,1,0x0d,0xb8,0,0,0,0,0,0,0,0,10,0,0,1]"
    by (rule w3 [THEN conjunct1])
  have same: "IPToXY conv_amd64 ''2001:db8::a00:1'' 100 100 = IPToXY conv_amd64 ''10.0.0.1'' 100 100"
    by (rule w [THEN conjunct2, THEN conjunct1, THEN mp, THEN mp, THEN mp, OF v6 ParseIP_10 d])
  note w4 = w3 [THEN conjunct2]
  have full: "ParseIP ''2001:db8:0:0:0:0:a00:1'' = Some [0x20,1,0x0d,0xb8,0,0,0,0,0,0,0,0,10,0,0,1]"
    using w4 [THEN conjunct1, THEN mp, OF g8] unfolding b8 j8 .
  note w5 = w4 [THEN conjunct2]
  have comp: "ParseIP ''2001:db8::a00:1'' = Some (ipv6_bytes [''2001'', ''db8''] [''a00'', ''1''])"
    using w5 [THEN conjunct1, THEN mp, OF g2] unfolding j2 .
  note w6 = w5 [THEN conjunct2]
  note m6 = w6 [THEN conjunct1, THEN mp, OF g6]
  have mixed: "ParseIP ''0:0:0:0:0:FFFF:10.0.0.1'' = Some [0,0,0,0,0,0,0,0,0,0,255,255,10,0,0,1]"
    using m6 [THEN conjunct1] unfolding b6 j6 .
  have mixed_xy: "IPToXY conv_amd64 ''0:0:0:0:0:FFFF:10.0.0.1'' 100 100 = Inr (- 47, - 50)"
    using m6 [THEN conjunct2, unfolded j6] unfolding j4 e .
  note w7 = w6 [THEN conjunct2]
  note m7 = w7 [THEN conjunct1, THEN mp, OF g1]
  have mapped: "ParseIP ''::ffff:10.0.0.1'' = Some [0,0,0,0,0,0,0,0,0,0,255,255,10,0,0,1]"
    using m7 [THEN conjunct1] unfolding b1 j1 .
  have mapped_xy: "IPToXY conv_amd64 ''::ffff:10.0.0.1'' 100 100 = Inr (- 47, - 50)"
    using m7 [THEN conjunct2, unfolded j1] unfolding j4 e .
  have nat64: "ParseIP ''64:ff9b::10.0.0.1'' = Some [0,0x64,0xff,0x9b,0,0,0,0,0,0,0,0,10,0,0,1]"
    using v [THEN conjunct2, THEN conjunct2, THEN conjunct2, THEN conjunct2, THEN conjunct2,
        THEN conjunct2, THEN conjunct1, THEN mp, OF g3, THEN conjunct1]
    unfolding b3 j3 .
  note zone = w7 [THEN conjunct2, THEN conjunct2, THEN mp, OF z]
  show ?thesis
    using v6 ParseIP_10 d same e g8 full g2 j2 b2 g6 o mixed mixed_xy mapped mapped_xy nat64 z zone
    by simp
qed


section \<open>The claims about parsing a line\<close>

text \<open>
  Claim C1 says that parsing the sample line yields the address 10.0.0.1, the timestamp
  2022-11-20T02:27:49+00:00 and, as the bytes fed to the fold, exactly the quoted request
  \<^verbatim>\<open>GET / HTTP/1.1\<close>, the trailing \<^verbatim>\<open> 200 100\<close> not contributing. The code folds
  everything after the first \<^verbatim>\<open>]\<close> of the fourth field: the pattern it returns is not the
  pattern of \<^verbatim>\<open>GET / HTTP/1.1\<close>, and the two fingerprints differ.
\<close>

theorem payload_not_quoted_request_counterexample:
  "LineToPattern conv_amd64 sample_line 100 100 =
     Inr (Inr ([''#Life 1.05'', ''#D log2life ouput'', ''#N'', ''#P -47 -50'',
                ''.*...**.'', ''..*...**'', ''..*..*.*'', ''.*.**.**'',
                ''..*.....'', ''..**...*'', ''..*....*'', ''.**.*...''],
               \<lparr>sec = 63804508069, nsec = 0, loc = Some 0\<rparr>))
   \<and> MakeLife105 (- 47) (- 50) (xorData (bytes ''GET / HTTP/1.1'')) =
       [''#Life 1.05'', ''#D log2life ouput'', ''#N'', ''#P -47 -50'',
        ''...*..**'', ''...*.*.*'', ''.****.**'', ''...*...*'',
        ''.......*'', ''...*...*'', ''.*..*...'', ''.*.*.*..'']
   \<and> xorData (bytes '' \"GET / HTTP/1.1\" 200 100'') \<noteq> xorData (bytes ''GET / HTTP/1.1'')"
proof -
  have "MakeLife105 (- 47) (- 50) [19, 21, 123, 17, 1, 17, 72, 84] =
       [''#Life 1.05'', ''#D log2life ouput'', ''#N'', ''#P -47 -50'',
        ''...*..**'', ''...*.*.*'', ''.****.**'', ''...*...*'',
        ''.......*'', ''...*...*'', ''.*..*...'', ''.*.*.*..'']"
    by code_simp
  then show ?thesis
    using sample_result [of conv_amd64] by (simp add: sample_fold sample_pattern)
qed

text \<open>
  Claim C1 as amended. Parsing the sample line yields the coordinate of the address
  10.0.0.1, the timestamp 2022-11-20T02:27:49+00:00, and as the bytes fed to the fold the
  whole text after the first \<^verbatim>\<open>]\<close> of the fourth field, that is a space, the quoted
  request and \<^verbatim>\<open> 200 100\<close>; the quotes are skipped, the leading space and the
  trailing \<^verbatim>\<open> 200 100\<close> contribute.
\<close>

theorem payload_is_rest_of_line:
  "LineToPattern conv sample_line 100 100 =
     Inr (Inr (MakeLife105 (- 47) (- 50) (xorData (bytes '' \"GET / HTTP/1.1\" 200 100'')),
               \<lparr>sec = 63804508069, nsec = 0, loc = Some 0\<rparr>))
   \<and> IPToXY conv ''10.0.0.1'' 100 100 = Inr (- 47, - 50)
   \<and> time_Parse ''20/Nov/2022:02:27:49 +0000'' = Some \<lparr>sec = 63804508069, nsec = 0, loc = Some 0\<rparr>
   \<and> 63804508069 = Date 2022 11 20 2 27 49
   \<and> xorData (bytes '' \"GET / HTTP/1.1\" 200 100'') = xorData (bytes '' GET / HTTP/1.1 200 100'')"
proof -
  have "63804508069 = Date 2022 11 20 2 27 49" by code_simp
  then show ?thesis using sample_result [of conv] sample_xy [of conv] sample_time
    by (simp add: sample_fold)
qed


text \<open>
  Claim C4 says that every line, also one with fewer than four fields, ends in a pattern
  or a logged error, and the loop goes on. On the line \<^verbatim>\<open>10.0.0.1\<close>, which has one field,
  \<^verbatim>\<open>LineToPattern\<close> indexes \<^verbatim>\<open>fields[3]\<close> and panics; the loop ends there, whatever
  lines follow.
\<close>

theorem short_line_aborts_run:
  "LineToPattern conv ''10.0.0.1'' w h = Inl (IndexOutOfRange 3 1)
   \<and> main_loop conv cfg send lastTime i (''10.0.0.1'' # lines) = ([], Some (IndexOutOfRange 3 1))
   \<and> main_loop conv \<lparr>Speed = Float False 1, Columns = 100, Rows = 100\<rparr> send noTime 0
         [sample_line, ''10.0.0.1'', sample_line] =
       (Pattern (MakeLife105 (- 47) (- 50) (xorData (bytes '' \"GET / HTTP/1.1\" 200 100'')))
          # (if send 0 then [] else [SendFailed]),
        Some (IndexOutOfRange 3 1))"
  by (simp add: short_line_panics sample_result noTime_def)


section \<open>The claims about the delay\<close>

text \<open>
  Claim C8 says that the delay is zero without a previous timestamp and otherwise, for a
  positive speed \<open>s\<close>, equals \<open>(t2 - t1) / s\<close>. One second at speed 3 gives a delay of
  333333 microseconds, three times which is not a second.
\<close>

theorem delay_truncates_counterexample:
  "time_Parse ''20/Nov/2022:02:27:49 +0000'' = Some t49
   \<and> time_Parse ''20/Nov/2022:02:27:50 +0000'' = Some t50
   \<and> Sub t50 t49 = 1000000000
   \<and> delay conv_amd64 t49 t50 (Float False 3) = 333333000
   \<and> (333333000 :: int) * 3 \<noteq> 1000000000"
  by (simp add: sample_times) (simp add: delay_eval)


text \<open>
  Claim C8 as amended. The first record is not delayed; every later record is delayed by
  a time computed from its timestamp, the timestamp of the record before it and the speed
  alone, whatever the loop did before and whatever lines follow, and a line that is
  logged and skipped between two records leaves the timestamp of the earlier one in
  place. For a positive speed the delay is the quotient of the gap in whole microseconds
  by the speed, rounded to \<^verbatim>\<open>float64\<close> and truncated to whole microseconds (the gap and
  the quotient at most \<open>2^53\<close> microseconds); at speed 1.0 it is the gap truncated to
  whole microseconds, at speed 2.0 half the gap when the gap is an even number of
  microseconds.
\<close>

theorem playback_delay:
  "(LineToPattern conv line (Columns cfg) (Rows cfg) = Inr (Inr (p, t2)) \<longrightarrow>
      main_loop conv cfg send noTime i [line] = (Pattern p # (if send i then [] else [SendFailed]), None)
      \<and> (t1 \<noteq> noTime \<longrightarrow>
           main_loop conv cfg send t1 i [line] =
             (Delaying (delay conv t1 t2 (Speed cfg)) # Pattern p
                # (if send i then [] else [SendFailed]), None)))
   \<and> (LineToPattern conv l1 (Columns cfg) (Rows cfg) = Inr (Inr (p1, ta))
        \<and> LineToPattern conv l2 (Columns cfg) (Rows cfg) = Inr (Inr (p2, tb)) \<longrightarrow>
      main_loop conv cfg send t0 i (l1 # l2 # lines) =
        ((if t0 \<noteq> noTime then [Delaying (delay conv t0 ta (Speed cfg))] else [])
           @ Pattern p1 # (if send i then [] else [SendFailed])
           @ Delaying (delay conv ta tb (Speed cfg))
           # Pattern p2 # (if send (i + 1) then [] else [SendFailed])
           @ fst (main_loop conv cfg send tb (i + 2) lines),
         snd (main_loop conv cfg send tb (i + 2) lines))
      \<and> main_loop conv cfg send noTime i [l1, l2] =
          (Pattern p1 # (if send i then [] else [SendFailed])
             @ Delaying (delay conv ta tb (Speed cfg))
             # Pattern p2 # (if send (i + 1) then [] else [SendFailed]), None)
      \<and> (LineToPattern conv bad (Columns cfg) (Rows cfg) = Inr (Inl e) \<longrightarrow>
           main_loop conv cfg send noTime i [l1, bad, l2] =
             (Pattern p1 # (if send i then [] else [SendFailed])
                @ LogPrint e # Delaying (delay conv ta tb (Speed cfg))
                # Pattern p2 # (if send (i + 2) then [] else [SendFailed]), None)))
   \<and> (0 \<le> Microseconds (Sub t2 t1) \<and> Microseconds (Sub t2 t1) \<le> 2 ^ 53 \<and> 0 < m
        \<and> round_mag (of_int (Microseconds (Sub t2 t1)) / m) \<le> 2 ^ 53 \<longrightarrow>
      delay conv t1 t2 (Float False m) =
        1000 * \<lfloor>round_mag (of_int (Microseconds (Sub t2 t1)) / m)\<rfloor>)
   \<and> (0 \<le> Sub t2 t1 \<and> Sub t2 t1 div 1000 \<le> 2 ^ 53 \<longrightarrow>
      delay conv t1 t2 (Float False 1) = 1000 * (Sub t2 t1 div 1000))
   \<and> (Sub t2 t1 = 2000 * k \<and> 0 \<le> k \<and> k \<le> 2 ^ 52 \<longrightarrow>
      delay conv t1 t2 (Float False 2) = 1000 * k)"
proof (intro conjI impI)
  assume a: "LineToPattern conv line (Columns cfg) (Rows cfg) = Inr (Inr (p, t2))"
  show "main_loop conv cfg send noTime i [line] =
      (Pattern p # (if send i then [] else [SendFailed]), None)"
    using main_loop_single [OF a, of send noTime i] by simp
  show "main_loop conv cfg send t1 i [line] =
      (Delaying (delay conv t1 t2 (Speed cfg)) # Pattern p # (if send i then [] else [SendFailed]), None)"
    if "t1 \<noteq> noTime"
    using main_loop_single [OF a, of send t1 i] that by simp
next
  assume "LineToPattern conv l1 (Columns cfg) (Rows cfg) = Inr (Inr (p1, ta))
        \<and> LineToPattern conv l2 (Columns cfg) (Rows cfg) = Inr (Inr (p2, tb))"
  then have a: "LineToPattern conv l1 (Columns cfg) (Rows cfg) = Inr (Inr (p1, ta))"
    and b: "LineToPattern conv l2 (Columns cfg) (Rows cfg) = Inr (Inr (p2, tb))"
    by simp_all
  show "main_loop conv cfg send t0 i (l1 # l2 # lines) =
        ((if t0 \<noteq> noTime then [Delaying (delay conv t0 ta (Speed cfg))] else [])
           @ Pattern p1 # (if send i then [] else [SendFailed])
           @ Delaying (delay conv ta tb (Speed cfg))
           # Pattern p2 # (if send (i + 1) then [] else [SendFailed])
           @ fst (main_loop conv cfg send tb (i + 2) lines),
         snd (main_loop conv cfg send tb (i + 2) lines))"
    by (rule main_loop_two_records [OF a b])
  show "main_loop conv cfg send noTime i [l1, l2] =
          (Pattern p1 # (if send i then [] else [SendFailed])
             @ Delaying (delay conv ta tb (Speed cfg))
             # Pattern p2 # (if send (i + 1) then [] else [SendFailed]), None)"
    using main_loop_two_records [OF a b, of send noTime i "[]"] by simp
  show "main_loop conv cfg send noTime i [l1, bad, l2] =
             (Pattern p1 # (if send i then [] else [SendFailed])
                @ LogPrint e # Delaying (delay conv ta tb (Speed cfg))
                # Pattern p2 # (if send (i + 2) then [] else [SendFailed]), None)"
    if "LineToPattern conv bad (Columns cfg) (Rows cfg) = Inr (Inl e)"
    by (rule main_loop_error_between [OF a that b])
next
  assume "0 \<le> Microseconds (Sub t2 t1) \<and> Microseconds (Sub t2 t1) \<le> 2 ^ 53 \<and> 0 < m
        \<and> round_mag (of_int (Microseconds (Sub t2 t1)) / m) \<le> 2 ^ 53"
  then show "delay conv t1 t2 (Float False m) =
        1000 * \<lfloor>round_mag (of_int (Microseconds (Sub t2 t1)) / m)\<rfloor>"
    using delay_small [where ?t2.0 = t2 and ?t1.0 = t1 and m = m and s = False and conv = conv] by simp
next
  assume "0 \<le> Sub t2 t1 \<and> Sub t2 t1 div 1000 \<le> 2 ^ 53"
  then show "delay conv t1 t2 (Float False 1) = 1000 * (Sub t2 t1 div 1000)"
    using delay_speed_one [of t2 t1 conv] by simp
next
  assume "Sub t2 t1 = 2000 * k \<and> 0 \<le> k \<and> k \<le> 2 ^ 52"
  then show "delay conv t1 t2 (Float False 2) = 1000 * k"
    using delay_speed_two [of t2 t1 k conv] by simp
qed


text \<open>
  The sample line and the line two seconds after it, at speeds 1, 2 and 3, alone, one
  after the other, and with a line without an address between them.
\<close>

theorem playback_delay_witness:
  "LineToPattern conv_amd64 sample_line 100 100 =
     Inr (Inr (MakeLife105 (- 47) (- 50) (xorData (bytes '' \"GET / HTTP/1.1\" 200 100'')), t49))
   \<and> LineToPattern conv_amd64 sample_line2 100 100 =
     Inr (Inr (MakeLife105 (- 47) (- 50) (xorData (bytes '' \"GET / HTTP/1.1\" 200 100'')), t51))
   \<and> LineToPattern conv_amd64 no_address_line 100 100 = Inr (Inl NoClientIP)
   \<and> main_loop conv_amd64 \<lparr>Speed = Float False 2, Columns = 100, Rows = 100\<rparr> (\<lambda>i. True) noTime 0
        [sample_line] =
       ([Pattern (MakeLife105 (- 47) (- 50) (xorData (bytes '' \"GET / HTTP/1.1\" 200 100'')))], None)
   \<and> t47 \<noteq> noTime
   \<and> main_loop conv_amd64 \<lparr>Speed = Float False 2, Columns = 100, Rows = 100\<rparr> (\<lambda>i. True) t47 0
        [sample_line] =
       ([Delaying 1000000000,
         Pattern (MakeLife105 (- 47) (- 50) (xorData (bytes '' \"GET / HTTP/1.1\" 200 100'')))], None)
   \<and> main_loop conv_amd64 \<lparr>Speed = Float False 2, Columns = 100, Rows = 100\<rparr> (\<lambda>i. True) noTime 0
        [sample_line, sample_line2] =
       ([Pattern (MakeLife105 (- 47) (- 50) (xorData (bytes '' \"GET / HTTP/1.1\" 200 100''))),
         Delaying 1000000000,
         Pattern (MakeLife105 (- 47) (- 50) (xorData (bytes '' \"GET / HTTP/1.1\" 200 100'')))], None)
   \<and> main_loop conv_amd64 \<lparr>Speed = Float False 2, Columns = 100, Rows = 100\<rparr> (\<lambda>i. True) noTime 0
        [sample_line, no_address_line, sample_line2] =
       ([Pattern (MakeLife105 (- 47) (- 50) (xorData (bytes '' \"GET / HTTP/1.1\" 200 100''))),
         LogPrint NoClientIP, Delaying 1000000000,
         Pattern (MakeLife105 (- 47) (- 50) (xorData (bytes '' \"GET / HTTP/1.1\" 200 100'')))], None)
   \<and> Sub t49 t47 = 2000 * 1000000
   \<and> Sub t51 t49 = 2000 * 1000000
   \<and> delay conv_amd64 t47 t49 (Float False 1) = 2000000000
   \<and> delay conv_amd64 t47 t49 (Float False 2) = 1000000000
   \<and> delay conv_amd64 t49 t51 (Float False 2) = 1000000000
   \<and> delay conv_amd64 t47 t49 (Float False 3) = 1000 * 666666"
proof -
  let ?cfg = "\<lparr>Speed = Float False 2, Columns = 100, Rows = 100\<rparr>"
  let ?p = "MakeLife105 (- 47) (- 50) (xorData (bytes '' \"GET / HTTP/1.1\" 200 100''))"
  have l: "LineToPattern conv_amd64 sample_line (Columns ?cfg) (Rows ?cfg) = Inr (Inr (?p, t49))"
    using sample_result [of conv_amd64] by (simp add: t49_def)
  have l2: "LineToPattern conv_amd64 sample_line2 (Columns ?cfg) (Rows ?cfg) = Inr (Inr (?p, t51))"
    using sample2_result [of conv_amd64] by simp
  have lb: "LineToPattern conv_amd64 no_address_line (Columns ?cfg) (Rows ?cfg) = Inr (Inl NoClientIP)"
    by (rule no_address_result)
  have ne: "t47 \<noteq> noTime" by (simp add: t47_def noTime_def)
  have s: "Sub t49 t47 = 2000 * 1000000" by (simp add: Sub_def t47_def t49_def)
  have s2: "Sub t51 t49 = 2000 * 1000000" by (simp add: Sub_def t51_def t49_def)
  have us: "Microseconds (Sub t49 t47) = 2000000" by (simp add: s Microseconds_def go_quot_def)
  have q: "round_mag (2000000 / 3) = 5726623061333333 / 8589934592"
    by (simp add: f64_eval)
  have fq: "\<lfloor>round_mag (2000000 / 3)\<rfloor> = 666666"
    unfolding q by simp
  have q53: "round_mag (2000000 / 3) \<le> 2 ^ 53"
    unfolding q by simp
  have h1: "0 \<le> Sub t49 t47 \<and> Sub t49 t47 div 1000 \<le> 2 ^ 53" by (simp add: s)
  have h2: "Sub t49 t47 = 2000 * 1000000 \<and> (0 :: int) \<le> 1000000 \<and> (1000000 :: int) \<le> 2 ^ 52"
    by (simp add: s)
  have h3: "0 \<le> Microseconds (Sub t49 t47) \<and> Microseconds (Sub t49 t47) \<le> 2 ^ 53 \<and> (0 :: rat) < 3
        \<and> round_mag (of_int (Microseconds (Sub t49 t47)) / 3) \<le> 2 ^ 53"
    using q53 by (simp add: us)
  have h4: "Sub t51 t49 = 2000 * 1000000 \<and> (0 :: int) \<le> 1000000 \<and> (1000000 :: int) \<le> 2 ^ 52"
    by (simp add: s2)
  note w = playback_delay [where conv = conv_amd64 and line = sample_line and cfg = ?cfg
      and p = ?p and ?t2.0 = t49 and send = "\<lambda>i. True" and i = 0 and ?t1.0 = t47 and m = 3
      and k = 1000000 and ?l1.0 = sample_line and ?p1.0 = ?p and ta = t49
      and ?l2.0 = sample_line2 and ?p2.0 = ?p and tb = t51 and ?t0.0 = noTime and lines = "[]"
      and bad = no_address_line and e = NoClientIP]
  note v = playback_delay [where conv = conv_amd64 and ?t2.0 = t51 and ?t1.0 = t49 and k = 1000000]
  have d2: "delay conv_amd64 t47 t49 (Float False 2) = 1000000000" using w h2 by simp
  have d1: "delay conv_amd64 t47 t49 (Float False 1) = 2000000000" using w h1 by (simp add: s)
  have d3: "delay conv_amd64 t47 t49 (Float False 3) = 1000 * 666666"
    using w h3 fq by (simp add: us)
  have d4: "delay conv_amd64 t49 t51 (Float False 2) = 1000000000" using v h4 by simp
  have m0: "main_loop conv_amd64 ?cfg (\<lambda>i. True) noTime 0 [sample_line] = ([Pattern ?p], None)"
    using w l by simp
  have m1: "main_loop conv_amd64 ?cfg (\<lambda>i. True) t47 0 [sample_line] =
       ([Delaying 1000000000, Pattern ?p], None)"
    using w l ne d2 by simp
  from w l l2 have "main_loop conv_amd64 ?cfg (\<lambda>i. True) noTime 0 [sample_line, sample_line2] =
       ([Pattern ?p, Delaying (delay conv_amd64 t49 t51 (Speed ?cfg)), Pattern ?p], None)"
    by simp
  then have m2: "main_loop conv_amd64 ?cfg (\<lambda>i. True) noTime 0 [sample_line, sample_line2] =
       ([Pattern ?p, Delaying 1000000000, Pattern ?p], None)"
    using d4 by simp
  from w l l2 lb
  have "main_loop conv_amd64 ?cfg (\<lambda>i. True) noTime 0 [sample_line, no_address_line, sample_line2] =
       ([Pattern ?p, LogPrint NoClientIP, Delaying (delay conv_amd64 t49 t51 (Speed ?cfg)),
         Pattern ?p], None)"
    by simp
  then have m3:
    "main_loop conv_amd64 ?cfg (\<lambda>i. True) noTime 0 [sample_line, no_address_line, sample_line2] =
       ([Pattern ?p, LogPrint NoClientIP, Delaying 1000000000, Pattern ?p], None)"
    using d4 by simp
  show ?thesis
    using l l2 lb ne s s2 d1 d2 d3 d4 m0 m1 m2 m3 by simp
qed


text \<open>
  Claim C3 says that for every speed \<open>s \<le> 0\<close> the computed delay is zero. At speed -1 a
  gap of five seconds gives a delay of minus five seconds, and timestamps five seconds
  backwards give a delay of five seconds, which \<^verbatim>\<open>time.Sleep\<close> sleeps.
\<close>

theorem negative_speed_delay_counterexample:
  "delay conv_amd64 t49 t54 (Float True 1) = - 5000000000
   \<and> delay conv_amd64 t54 t49 (Float True 1) = 5000000000
   \<and> slept (delay conv_amd64 t54 t49 (Float True 1)) = 5000000000"
  by (simp add: slept_def) (simp add: delay_eval)


text \<open>
  Claim C3 as amended. The first record is not delayed whatever the speed, and the record
  after it is delayed by the delay computed from the two timestamps, whatever lines
  follow. At speed zero the division is a \<^verbatim>\<open>float64\<close> division by zero, which does not
  trap: the quotient is an infinity or a NaN, and the delay is 1000 times what the
  platform's conversion makes of it, within \<^verbatim>\<open>int64\<close>; it is zero on amd64. At a
  negative speed, for timestamps in order (gap and quotient at most \<open>2^53\<close>
  microseconds), the delay is minus the truncated quotient: never positive, so that
  \<^verbatim>\<open>time.Sleep\<close> returns at once. At a negative speed, for timestamps that go backwards
  by a microsecond or more, the delay is the truncated quotient of the reversed gap: never
  negative, and slept in full.
\<close>

theorem nonpositive_speed_delay:
  "(LineToPattern conv line (Columns cfg) (Rows cfg) = Inr (Inr (p, t2)) \<longrightarrow>
      main_loop conv cfg send noTime i [line] = (Pattern p # (if send i then [] else [SendFailed]), None))
   \<and> (LineToPattern conv l1 (Columns cfg) (Rows cfg) = Inr (Inr (p1, ta))
        \<and> LineToPattern conv l2 (Columns cfg) (Rows cfg) = Inr (Inr (p2, tb)) \<longrightarrow>
      main_loop conv cfg send noTime i (l1 # l2 # lines) =
        (Pattern p1 # (if send i then [] else [SendFailed])
           @ Delaying (delay conv ta tb (Speed cfg))
           # Pattern p2 # (if send (i + 1) then [] else [SendFailed])
           @ fst (main_loop conv cfg send tb (i + 2) lines),
         snd (main_loop conv cfg send tb (i + 2) lines))
      \<and> (Speed cfg = Float s 0 \<longrightarrow>
           main_loop conv cfg send noTime i [l1, l2] =
             (Pattern p1 # (if send i then [] else [SendFailed])
                @ Delaying (wrap64 (wrap64 (conv (delay_quotient ta tb (Float s 0))) * 1000))
                # Pattern p2 # (if send (i + 1) then [] else [SendFailed]), None))
      \<and> (Speed cfg = Float s 0 \<and> conv = conv_amd64 \<longrightarrow>
           main_loop conv cfg send noTime i [l1, l2] =
             (Pattern p1 # (if send i then [] else [SendFailed])
                @ Delaying 0 # Pattern p2 # (if send (i + 1) then [] else [SendFailed]), None))
      \<and> (Speed cfg = Float True m \<and> 0 \<le> Microseconds (Sub tb ta)
            \<and> Microseconds (Sub tb ta) \<le> 2 ^ 53 \<and> 0 < m
            \<and> of_int (Microseconds (Sub tb ta)) \<le> 2 ^ 53 * m \<longrightarrow>
           main_loop conv cfg send noTime i [l1, l2] =
             (Pattern p1 # (if send i then [] else [SendFailed])
                @ Delaying (- 1000 * \<lfloor>round_mag (of_int (Microseconds (Sub tb ta)) / m)\<rfloor>)
                # Pattern p2 # (if send (i + 1) then [] else [SendFailed]), None)
           \<and> slept (- 1000 * \<lfloor>round_mag (of_int (Microseconds (Sub tb ta)) / m)\<rfloor>) = 0)
      \<and> (Speed cfg = Float True m \<and> Microseconds (Sub tb ta) < 0
            \<and> - (2 ^ 53) \<le> Microseconds (Sub tb ta) \<and> 0 < m
            \<and> of_int (- Microseconds (Sub tb ta)) \<le> 2 ^ 53 * m \<longrightarrow>
           main_loop conv cfg send noTime i [l1, l2] =
             (Pattern p1 # (if send i then [] else [SendFailed])
                @ Delaying (1000 * \<lfloor>round_mag (of_int (- Microseconds (Sub tb ta)) / m)\<rfloor>)
                # Pattern p2 # (if send (i + 1) then [] else [SendFailed]), None)))
   \<and> (delay_quotient t1 t2 (Float s 0) = NaN \<or> (\<exists>b. delay_quotient t1 t2 (Float s 0) = Inf b))
   \<and> delay conv t1 t2 (Float s 0) =
       wrap64 (wrap64 (conv (delay_quotient t1 t2 (Float s 0))) * 1000)
   \<and> delay conv_amd64 t1 t2 (Float s 0) = 0
   \<and> (0 \<le> Microseconds (Sub t2 t1) \<and> Microseconds (Sub t2 t1) \<le> 2 ^ 53 \<and> 0 < m
        \<and> of_int (Microseconds (Sub t2 t1)) \<le> 2 ^ 53 * m \<longrightarrow>
      delay conv t1 t2 (Float True m) =
        - 1000 * \<lfloor>round_mag (of_int (Microseconds (Sub t2 t1)) / m)\<rfloor>
      \<and> delay conv t1 t2 (Float True m) \<le> 0
      \<and> slept (delay conv t1 t2 (Float True m)) = 0)
   \<and> (Microseconds (Sub t2 t1) < 0 \<and> - (2 ^ 53) \<le> Microseconds (Sub t2 t1) \<and> 0 < m
        \<and> of_int (- Microseconds (Sub t2 t1)) \<le> 2 ^ 53 * m \<longrightarrow>
      delay conv t1 t2 (Float True m) =
        1000 * \<lfloor>round_mag (of_int (- Microseconds (Sub t2 t1)) / m)\<rfloor>
      \<and> 0 \<le> delay conv t1 t2 (Float True m)
      \<and> slept (delay conv t1 t2 (Float True m)) = delay conv t1 t2 (Float True m))"
proof (intro conjI impI)
  assume a: "LineToPattern conv line (Columns cfg) (Rows cfg) = Inr (Inr (p, t2))"
  show "main_loop conv cfg send noTime i [line] =
      (Pattern p # (if send i then [] else [SendFailed]), None)"
    using main_loop_single [OF a, of send noTime i] by simp
next
  assume "LineToPattern conv l1 (Columns cfg) (Rows cfg) = Inr (Inr (p1, ta))
        \<and> LineToPattern conv l2 (Columns cfg) (Rows cfg) = Inr (Inr (p2, tb))"
  then have a: "LineToPattern conv l1 (Columns cfg) (Rows cfg) = Inr (Inr (p1, ta))"
    and b: "LineToPattern conv l2 (Columns cfg) (Rows cfg) = Inr (Inr (p2, tb))"
    by simp_all
  show "main_loop conv cfg send noTime i (l1 # l2 # lines) =
        (Pattern p1 # (if send i then [] else [SendFailed])
           @ Delaying (delay conv ta tb (Speed cfg))
           # Pattern p2 # (if send (i + 1) then [] else [SendFailed])
           @ fst (main_loop conv cfg send tb (i + 2) lines),
         snd (main_loop conv cfg send tb (i + 2) lines))"
    using main_loop_two_records [OF a b, of send noTime i lines] by simp
  have run: "main_loop conv cfg send noTime i [l1, l2] =
          (Pattern p1 # (if send i then [] else [SendFailed])
             @ Delaying (delay conv ta tb (Speed cfg))
             # Pattern p2 # (if send (i + 1) then [] else [SendFailed]), None)"
    using main_loop_two_records [OF a b, of send noTime i "[]"] by simp
  show "main_loop conv cfg send noTime i [l1, l2] =
             (Pattern p1 # (if send i then [] else [SendFailed])
                @ Delaying (wrap64 (wrap64 (conv (delay_quotient ta tb (Float s 0))) * 1000))
                # Pattern p2 # (if send (i + 1) then [] else [SendFailed]), None)"
    if "Speed cfg = Float s 0"
    unfolding run that delay_speed_zero(2) [of conv ta tb s] ..
  show "main_loop conv cfg send noTime i [l1, l2] =
             (Pattern p1 # (if send i then [] else [SendFailed])
                @ Delaying 0 # Pattern p2 # (if send (i + 1) then [] else [SendFailed]), None)"
    if "Speed cfg = Float s 0 \<and> conv = conv_amd64"
    using run that delay_speed_zero(3) [of ta tb s] by simp
  {
    assume h: "Speed cfg = Float True m \<and> 0 \<le> Microseconds (Sub tb ta)
            \<and> Microseconds (Sub tb ta) \<le> 2 ^ 53 \<and> 0 < m
            \<and> of_int (Microseconds (Sub tb ta)) \<le> 2 ^ 53 * m"
    then have d: "delay conv ta tb (Float True m) =
        - 1000 * \<lfloor>round_mag (of_int (Microseconds (Sub tb ta)) / m)\<rfloor>"
      and n: "delay conv ta tb (Float True m) \<le> 0"
      using delay_negative_speed [of tb ta m conv] by simp_all
    show "main_loop conv cfg send noTime i [l1, l2] =
             (Pattern p1 # (if send i then [] else [SendFailed])
                @ Delaying (- 1000 * \<lfloor>round_mag (of_int (Microseconds (Sub tb ta)) / m)\<rfloor>)
                # Pattern p2 # (if send (i + 1) then [] else [SendFailed]), None)"
      using run h d by simp
    show "slept (- 1000 * \<lfloor>round_mag (of_int (Microseconds (Sub tb ta)) / m)\<rfloor>) = 0"
      using n unfolding d by (simp add: slept_def)
  }
  show "main_loop conv cfg send noTime i [l1, l2] =
             (Pattern p1 # (if send i then [] else [SendFailed])
                @ Delaying (1000 * \<lfloor>round_mag (of_int (- Microseconds (Sub tb ta)) / m)\<rfloor>)
                # Pattern p2 # (if send (i + 1) then [] else [SendFailed]), None)"
    if h: "Speed cfg = Float True m \<and> Microseconds (Sub tb ta) < 0
            \<and> - (2 ^ 53) \<le> Microseconds (Sub tb ta) \<and> 0 < m
            \<and> of_int (- Microseconds (Sub tb ta)) \<le> 2 ^ 53 * m"
    using run h delay_negative_speed_backwards(1) [of tb ta m conv] by simp
next
  show "delay_quotient t1 t2 (Float s 0) = NaN \<or> (\<exists>b. delay_quotient t1 t2 (Float s 0) = Inf b)"
    by (rule delay_speed_zero(1))
  show "delay conv t1 t2 (Float s 0) =
       wrap64 (wrap64 (conv (delay_quotient t1 t2 (Float s 0))) * 1000)"
    by (rule delay_speed_zero(2))
  show "delay conv_amd64 t1 t2 (Float s 0) = 0"
    by (rule delay_speed_zero(3))
next
  assume h: "0 \<le> Microseconds (Sub t2 t1) \<and> Microseconds (Sub t2 t1) \<le> 2 ^ 53 \<and> 0 < m
        \<and> of_int (Microseconds (Sub t2 t1)) \<le> 2 ^ 53 * m"
  then show 1: "delay conv t1 t2 (Float True m) =
        - 1000 * \<lfloor>round_mag (of_int (Microseconds (Sub t2 t1)) / m)\<rfloor>"
    using delay_negative_speed(1) [of t2 t1 m conv] by simp
  from h show 2: "delay conv t1 t2 (Float True m) \<le> 0"
    using delay_negative_speed(2) [of t2 t1 m conv] by simp
  then show "slept (delay conv t1 t2 (Float True m)) = 0" by (simp add: slept_def)
next
  assume h: "Microseconds (Sub t2 t1) < 0 \<and> - (2 ^ 53) \<le> Microseconds (Sub t2 t1) \<and> 0 < m
        \<and> of_int (- Microseconds (Sub t2 t1)) \<le> 2 ^ 53 * m"
  then show "delay conv t1 t2 (Float True m) =
        1000 * \<lfloor>round_mag (of_int (- Microseconds (Sub t2 t1)) / m)\<rfloor>"
    using delay_negative_speed_backwards(1) [of t2 t1 m conv] by simp
  from h show 2: "0 \<le> delay conv t1 t2 (Float True m)"
    using delay_negative_speed_backwards(2) [of t2 t1 m conv] by simp
  then show "slept (delay conv t1 t2 (Float True m)) = delay conv t1 t2 (Float True m)"
    by (simp add: slept_def)
qed


text \<open>
  The sample line and the line two seconds after it, in both orders, at speeds 0 and -1.
\<close>

theorem nonpositive_speed_delay_witness:
  "LineToPattern conv_amd64 sample_line 100 100 =
     Inr (Inr (MakeLife105 (- 47) (- 50) (xorData (bytes '' \"GET / HTTP/1.1\" 200 100'')), t49))
   \<and> LineToPattern conv_amd64 sample_line2 100 100 =
     Inr (Inr (MakeLife105 (- 47) (- 50) (xorData (bytes '' \"GET / HTTP/1.1\" 200 100'')), t51))
   \<and> main_loop conv_amd64 \<lparr>Speed = Float False 0, Columns = 100, Rows = 100\<rparr> (\<lambda>i. True) noTime 0
        [sample_line] =
       ([Pattern (MakeLife105 (- 47) (- 50) (xorData (bytes '' \"GET / HTTP/1.1\" 200 100'')))], None)
   \<and> main_loop conv_amd64 \<lparr>Speed = Float False 0, Columns = 100, Rows = 100\<rparr> (\<lambda>i. True) noTime 0
        [sample_line, sample_line2] =
       ([Pattern (MakeLife105 (- 47) (- 50) (xorData (bytes '' \"GET / HTTP/1.1\" 200 100''))),
         Delaying 0,
         Pattern (MakeLife105 (- 47) (- 50) (xorData (bytes '' \"GET / HTTP/1.1\" 200 100'')))], None)
   \<and> main_loop conv_amd64 \<lparr>Speed = Float True 1, Columns = 100, Rows = 100\<rparr> (\<lambda>i. True) noTime 0
        [sample_line, sample_line2] =
       ([Pattern (MakeLife105 (- 47) (- 50) (xorData (bytes '' \"GET / HTTP/1.1\" 200 100''))),
         Delaying (- 2000000000),
         Pattern (MakeLife105 (- 47) (- 50) (xorData (bytes '' \"GET / HTTP/1.1\" 200 100'')))], None)
   \<and> slept (- 2000000000) = 0
   \<and> main_loop conv_amd64 \<lparr>Speed = Float True 1, Columns = 100, Rows = 100\<rparr> (\<lambda>i. True) noTime 0
        [sample_line2, sample_line] =
       ([Pattern (MakeLife105 (- 47) (- 50) (xorData (bytes '' \"GET / HTTP/1.1\" 200 100''))),
         Delaying 2000000000,
         Pattern (MakeLife105 (- 47) (- 50) (xorData (bytes '' \"GET / HTTP/1.1\" 200 100'')))], None)
   \<and> Microseconds (Sub t49 t47) = 2000000
   \<and> Microseconds (Sub t51 t49) = 2000000
   \<and> Microseconds (Sub t49 t51) = - 2000000
   \<and> delay_quotient t47 t49 (Float False 0) = Inf False
   \<and> delay conv_amd64 t47 t49 (Float False 0) = 0
   \<and> delay conv_amd64 t47 t49 (Float True 1) = - 2000000000
   \<and> slept (delay conv_amd64 t47 t49 (Float True 1)) = 0
   \<and> delay conv_amd64 t51 t49 (Float True 1) = 2000000000
   \<and> slept (delay conv_amd64 t51 t49 (Float True 1)) = 2000000000"
proof -
  let ?cfg = "\<lparr>Speed = Float False 0, Columns = 100, Rows = 100\<rparr>"
  let ?neg = "\<lparr>Speed = Float True 1, Columns = 100, Rows = 100\<rparr>"
  let ?p = "MakeLife105 (- 47) (- 50) (xorData (bytes '' \"GET / HTTP/1.1\" 200 100''))"
  have l: "LineToPattern conv_amd64 sample_line 100 100 = Inr (Inr (?p, t49))"
    using sample_result [of conv_amd64] by (simp add: t49_def)
  have l2: "LineToPattern conv_amd64 sample_line2 100 100 = Inr (Inr (?p, t51))"
    by (rule sample2_result)
  have us: "Microseconds (Sub t49 t47) = 2000000"
    by (simp add: Sub_def t47_def t49_def Microseconds_def go_quot_def)
  have us2: "Microseconds (Sub t51 t49) = 2000000"
    by (simp add: Sub_def t51_def t49_def Microseconds_def go_quot_def)
  have us3: "Microseconds (Sub t49 t51) = - 2000000"
    by (simp add: Sub_def t51_def t49_def Microseconds_def go_quot_def)
  have q: "delay_quotient t47 t49 (Float False 0) = Inf False"
    by (simp add: delay_quotient_def us f64_eval)
  have r: "\<lfloor>round_mag (2000000 / 1)\<rfloor> = 2000000"
    using round_mag_of_int [of 2000000] by simp
  have h: "0 \<le> Microseconds (Sub t49 t47) \<and> Microseconds (Sub t49 t47) \<le> 2 ^ 53 \<and> (0 :: rat) < 1
        \<and> of_int (Microseconds (Sub t49 t47)) \<le> 2 ^ 53 * (1 :: rat)"
    by (simp add: us)
  have hb: "Microseconds (Sub t49 t51) < 0 \<and> - (2 ^ 53) \<le> Microseconds (Sub t49 t51) \<and> (0 :: rat) < 1
        \<and> of_int (- Microseconds (Sub t49 t51)) \<le> 2 ^ 53 * (1 :: rat)"
    by (simp add: us3)
  have c: "LineToPattern conv_amd64 sample_line (Columns ?cfg) (Rows ?cfg) = Inr (Inr (?p, t49))"
    "LineToPattern conv_amd64 sample_line2 (Columns ?cfg) (Rows ?cfg) = Inr (Inr (?p, t51))"
    "LineToPattern conv_amd64 sample_line (Columns ?neg) (Rows ?neg) = Inr (Inr (?p, t49))"
    "LineToPattern conv_amd64 sample_line2 (Columns ?neg) (Rows ?neg) = Inr (Inr (?p, t51))"
    using l l2 by simp_all
  note w = nonpositive_speed_delay [where conv = conv_amd64 and line = sample_line and cfg = ?cfg
      and p = ?p and ?t2.0 = t49 and send = "\<lambda>i. True" and i = 0 and ?t1.0 = t47 and s = False
      and m = 1 and ?l1.0 = sample_line and ?p1.0 = ?p and ta = t49
      and ?l2.0 = sample_line2 and ?p2.0 = ?p and tb = t51 and lines = "[]"]
  note n = nonpositive_speed_delay [where conv = conv_amd64 and cfg = ?neg
      and send = "\<lambda>i. True" and i = 0 and m = 1 and ?l1.0 = sample_line and ?p1.0 = ?p
      and ta = t49 and ?l2.0 = sample_line2 and ?p2.0 = ?p and tb = t51 and lines = "[]"]
  note b = nonpositive_speed_delay [where conv = conv_amd64 and cfg = ?neg
      and send = "\<lambda>i. True" and i = 0 and m = 1 and ?l1.0 = sample_line2 and ?p1.0 = ?p
      and ta = t51 and ?l2.0 = sample_line and ?p2.0 = ?p and tb = t49 and lines = "[]"
      and ?t1.0 = t51 and ?t2.0 = t49]
  have sp: "Speed ?cfg = Float False 0 \<and> conv_amd64 = conv_amd64" by simp
  have hn: "Speed ?neg = Float True 1 \<and> 0 \<le> Microseconds (Sub t51 t49)
      \<and> Microseconds (Sub t51 t49) \<le> 2 ^ 53 \<and> (0 :: rat) < 1
      \<and> of_int (Microseconds (Sub t51 t49)) \<le> 2 ^ 53 * (1 :: rat)"
    by (simp add: us2)
  have hr: "Speed ?neg = Float True 1 \<and> Microseconds (Sub t49 t51) < 0
      \<and> - (2 ^ 53) \<le> Microseconds (Sub t49 t51) \<and> (0 :: rat) < 1
      \<and> of_int (- Microseconds (Sub t49 t51)) \<le> 2 ^ 53 * (1 :: rat)"
    by (simp add: us3)
  note w1 = w [THEN conjunct1, THEN mp, OF c(1)]
  note w2 = w [THEN conjunct2, THEN conjunct1, THEN mp, OF conjI [OF c(1) c(2)]]
  note n2 = n [THEN conjunct2, THEN conjunct1, THEN mp, OF conjI [OF c(3) c(4)]]
  note b2 = b [THEN conjunct2, THEN conjunct1, THEN mp, OF conjI [OF c(4) c(3)]]
  have m0: "main_loop conv_amd64 ?cfg (\<lambda>i. True) noTime 0 [sample_line] = ([Pattern ?p], None)"
    using w1 by simp
  have m1: "main_loop conv_amd64 ?cfg (\<lambda>i. True) noTime 0 [sample_line, sample_line2] =
       ([Pattern ?p, Delaying 0, Pattern ?p], None)"
    using w2 [THEN conjunct2, THEN conjunct2, THEN conjunct1, THEN mp, OF sp] by simp
  note n3 = n2 [THEN conjunct2, THEN conjunct2, THEN conjunct2, THEN conjunct1, THEN mp, OF hn]
  have m2: "main_loop conv_amd64 ?neg (\<lambda>i. True) noTime 0 [sample_line, sample_line2] =
       ([Pattern ?p, Delaying (- 2000000000), Pattern ?p], None)"
    using n3 [THEN conjunct1] r by (simp add: us2)
  have s0: "slept (- 2000000000) = 0"
    using n3 [THEN conjunct2] r by (simp add: us2)
  have m3: "main_loop conv_amd64 ?neg (\<lambda>i. True) noTime 0 [sample_line2, sample_line] =
       ([Pattern ?p, Delaying 2000000000, Pattern ?p], None)"
    using b2 [THEN conjunct2, THEN conjunct2, THEN conjunct2, THEN conjunct2, THEN mp, OF hr] r
    by (simp add: us3)
  note w3 = w [THEN conjunct2, THEN conjunct2, THEN conjunct2, THEN conjunct2]
  note fwd = w3 [THEN conjunct2, THEN conjunct1, THEN mp, OF h]
  note bwd = b [THEN conjunct2, THEN conjunct2, THEN conjunct2, THEN conjunct2, THEN conjunct2,
      THEN conjunct2, THEN mp, OF hb]
  have d0: "delay conv_amd64 t47 t49 (Float False 0) = 0"
    by (rule w3 [THEN conjunct1])
  have d1: "delay conv_amd64 t47 t49 (Float True 1) = - 2000000000"
    using fwd [THEN conjunct1] r by (simp add: us)
  have s1: "slept (delay conv_amd64 t47 t49 (Float True 1)) = 0"
    by (rule fwd [THEN conjunct2, THEN conjunct2])
  have d2: "delay conv_amd64 t51 t49 (Float True 1) = 2000000000"
    using bwd [THEN conjunct1] r by (simp add: us3)
  have s2: "slept (delay conv_amd64 t51 t49 (Float True 1)) = 2000000000"
    using bwd [THEN conjunct2, THEN conjunct2] d2 by simp
  show ?thesis using l l2 us us2 us3 q m0 m1 m2 s0 m3 d0 d1 s1 d2 s2 by simp
qed

end
